theory Spec2Isabelle
  imports Complex_Main
begin

section \<open>Numeric model\<close>

text \<open>
  The C++ source computes in \<open>double\<close>. The model computes in exact real arithmetic:
  a \<open>double\<close> is a \<^typ>\<open>real\<close>, and rounding of the floating-point operations is not
  modelled. An operation whose IEEE result would be an infinity or a NaN (a division by
  zero, the square root of a negative number) has no value in this model; it is a
  \<open>fault\<close>, as is every step whose behaviour C++ leaves undefined (a read past the end
  of a vector, a conversion to an integer type that cannot hold the value).
\<close>

datatype fault =
    ZeroDivisor       \<comment> \<open>division by zero: IEEE gives an infinity or a NaN\<close>
  | NegativeRoot      \<comment> \<open>\<open>sqrt\<close> of a negative number: IEEE gives a NaN\<close>
  | OutOfBounds       \<comment> \<open>read past the end of a vector: undefined behaviour\<close>
  | Unrepresentable   \<comment> \<open>conversion to an integer type out of its range: undefined behaviour\<close>

text \<open>
  The element type of an array (the template parameters \<open>T1\<close>, \<open>T2\<close>): a floating-point
  type, or an integral type given by its signedness and its width in bits. A value of
  an integral array is kept as the real number it denotes.
\<close>

datatype elem_type = Floating | Integral bool nat

fun is_integral :: "elem_type \<Rightarrow> bool" where
  "is_integral Floating = False"
| "is_integral (Integral sg bits) = True"

text \<open>\<open>std::numeric_limits<T>::lowest()\<close> and \<open>max()\<close> of an integral type.\<close>

fun lowest :: "elem_type \<Rightarrow> real" where
  "lowest (Integral sg bits) = (if sg then - (2 ^ (bits - 1)) else 0)"
| "lowest Floating = 0"

fun highest :: "elem_type \<Rightarrow> real" where
  "highest (Integral sg bits) = (if sg then 2 ^ (bits - 1) - 1 else 2 ^ bits - 1)"
| "highest Floating = 0"

text \<open>Conversion of a \<open>double\<close> to \<open>int\<close>: truncation toward zero.\<close>

definition trunc :: "real \<Rightarrow> real" where
  "trunc x = (if 0 \<le> x then of_int \<lfloor>x\<rfloor> else of_int \<lceil>x\<rceil>)"

text \<open>\<open>round\<close> of the C library: to the nearest integer, halves away from zero.\<close>

definition round_half_away :: "real \<Rightarrow> real" where
  "round_half_away x = (if 0 \<le> x then of_int \<lfloor>x + 1 / 2\<rfloor> else of_int \<lceil>x - 1 / 2\<rceil>)"

text \<open>
  Storing a \<open>double\<close> into an array of element type \<open>t\<close>: unchanged for a floating
  type, truncated toward zero for an integral one, where a value outside the type's
  range is undefined behaviour.
\<close>

definition from_double :: "elem_type \<Rightarrow> real \<Rightarrow> fault + real" where
  "from_double t x =
     (if is_integral t
      then (if lowest t \<le> trunc x \<and> trunc x \<le> highest t then Inr (trunc x)
            else Inl Unrepresentable)
      else Inr x)"

text \<open>
  The difference \<open>in(k) - s.apex_height\<close> of two array elements, before it is converted
  to \<open>double\<close>. Operands narrower than \<open>int\<close> (taken as 32 bits) are promoted to
  \<open>int\<close>, so the difference is exact; operands of an unsigned type of 32 bits or more
  are subtracted modulo \<open>2 ^ bits\<close>.
\<close>

fun elem_sub :: "elem_type \<Rightarrow> real \<Rightarrow> real \<Rightarrow> real" where
  "elem_sub Floating a b = a - b"
| "elem_sub (Integral sg bits) a b =
     (if \<not> sg \<and> 32 \<le> bits then of_int ((\<lfloor>a\<rfloor> - \<lfloor>b\<rfloor>) mod 2 ^ bits) else a - b)"

text \<open>\<open>sq\<close> of \<open>math.hpp\<close>: the square.\<close>

definition sq :: "real \<Rightarrow> real" where
  "sq x = x * x"

section \<open>The parabola stack of one line\<close>

record distance_parabola_stack_entry =
  left :: real
  center :: real
  right :: real
  apex_height :: real

text \<open>
  The vector \<open>_stack\<close> is a list whose head is \<open>_stack.back()\<close>: \<open>push_back\<close> is
  \<open>(#)\<close>, \<open>pop_back\<close> is \<open>tl\<close>, and \<open>_stack.begin()\<close> is the last element.

  \<open>intersect\<close> is the \<open>while(true)\<close> loop of the forward pass, entered with the top
  entry \<open>s\<close> and the entries \<open>below\<close> it, for the sample \<open>v = in(k)\<close> at \<open>current\<close>.
  It returns \<open>intersection\<close> and the stack the loop leaves.
\<close>

fun intersect ::
  "elem_type \<Rightarrow> real \<Rightarrow> real \<Rightarrow> real \<Rightarrow> distance_parabola_stack_entry \<Rightarrow>
   distance_parabola_stack_entry list \<Rightarrow> fault + (real \<times> distance_parabola_stack_entry list)"
where
  "intersect t sigma2 current v s below =
     (let diff = current - center s;
          divisor = (2 * sigma2) * diff
      in if divisor = 0 then Inl ZeroDivisor
         else
           let intersection =
                 current + (elem_sub t v (apex_height s) - sigma2 * sq diff) / divisor
           in if intersection < left s
              then (case below of
                      [] \<Rightarrow> Inr (0, [])
                    | s' # below' \<Rightarrow> intersect t sigma2 current v s' below')
              else if intersection < right s
              then Inr (intersection, s\<lparr>right := intersection\<rparr> # below)
              else Inr (intersection, s # below))"

text \<open>One iteration of the \<open>for\<close> loop of the forward pass, at position \<open>k\<close>.\<close>

definition forward_step ::
  "elem_type \<Rightarrow> real \<Rightarrow> real list \<Rightarrow> nat \<Rightarrow> distance_parabola_stack_entry list \<Rightarrow>
   fault + distance_parabola_stack_entry list"
where
  "forward_step t sigma2 line k stack =
     (case stack of
        [] \<Rightarrow> Inl OutOfBounds
      | s # below \<Rightarrow>
          (case intersect t sigma2 (real k) (line ! k) s below of
             Inl e \<Rightarrow> Inl e
           | Inr (intersection, stack') \<Rightarrow>
               Inr (\<lparr>left = intersection, center = real k, right = real (length line),
                     apex_height = line ! k\<rparr> # stack')))"

text \<open>
  The stack after the iterations \<open>k = 1, \<dots>, n\<close> of the forward pass over a non-empty
  line; the pass itself runs to \<open>n = w - 1\<close>.
\<close>

fun forward_pass ::
  "elem_type \<Rightarrow> real \<Rightarrow> real list \<Rightarrow> nat \<Rightarrow> fault + distance_parabola_stack_entry list"
where
  "forward_pass t sigma2 line 0 =
     Inr [\<lparr>left = 0, center = 0, right = real (length line), apex_height = line ! 0\<rparr>]"
| "forward_pass t sigma2 line (Suc n) =
     (case forward_pass t sigma2 line n of
        Inl e \<Rightarrow> Inl e
      | Inr stack \<Rightarrow> forward_step t sigma2 line (Suc n) stack)"

text \<open>The cursor \<open>it\<close> of the second pass: \<open>while(current >= it->right) ++it\<close>.\<close>

fun advance ::
  "real \<Rightarrow> distance_parabola_stack_entry list \<Rightarrow> distance_parabola_stack_entry list"
where
  "advance current [] = []"
| "advance current (e # es) = (if current \<ge> right e then advance current es else e # es)"

text \<open>
  The second pass over the positions \<open>ks\<close> still to be written, the cursor standing at
  the head of \<open>it\<close>. A cursor that runs off the stack is dereferenced past the end.
\<close>

fun read_out ::
  "elem_type \<Rightarrow> real \<Rightarrow> nat list \<Rightarrow> distance_parabola_stack_entry list \<Rightarrow> fault + real list"
where
  "read_out t sigma2 [] it = Inr []"
| "read_out t sigma2 (k # ks) it =
     (case advance (real k) it of
        [] \<Rightarrow> Inl OutOfBounds
      | e # es \<Rightarrow>
          (case from_double t (sigma2 * sq (real k - center e) + apex_height e) of
             Inl f \<Rightarrow> Inl f
           | Inr x \<Rightarrow>
               (case read_out t sigma2 ks (e # es) of
                  Inl f \<Rightarrow> Inl f
                | Inr out \<Rightarrow> Inr (x # out))))"

text \<open>
  \<open>distance_parabola\<close> on a line \<open>in\<close> of element type \<open>t\<close>, giving the contents of
  \<open>out\<close> (of the same type and length). All reads of \<open>in\<close> precede all writes of
  \<open>out\<close>, so the result is the same when both are views of one line.
\<close>

definition distance_parabola ::
  "elem_type \<Rightarrow> real list \<Rightarrow> real \<Rightarrow> bool \<Rightarrow> fault + real list"
where
  "distance_parabola t line sigma invert =
     (let w = length line
      in if w \<le> 0 then Inr line
         else
           let sigma2 = (if invert then - sq sigma else sq sigma)
           in (case forward_pass t sigma2 line (w - 1) of
                 Inl e \<Rightarrow> Inl e
               | Inr stack \<Rightarrow> read_out t sigma2 [0..<w] (rev stack)))"

section \<open>Arrays of any dimension\<close>

text \<open>
  An array (\<open>view_nd\<close>, \<open>array_nd\<close>) is its shape and its elements, addressed by
  coordinate tuples; only the coordinates inside the shape (\<open>coords\<close>, in row-major
  order) belong to the array.
\<close>

record 'a array_nd =
  shape :: "nat list"
  elems :: "nat list \<Rightarrow> 'a"

fun coords :: "nat list \<Rightarrow> nat list list" where
  "coords [] = [[]]"
| "coords (n # ns) = concat (map (\<lambda>i. map ((#) i) (coords ns)) [0..<n])"

text \<open>The contents of an array, in row-major order.\<close>

definition contents :: "'a array_nd \<Rightarrow> 'a list" where
  "contents a = map (elems a) (coords (shape a))"

text \<open>
  Assignment through a view: the elements at the coordinates \<open>cs\<close> receive the values
  \<open>vals\<close>, in this order; every other element is unchanged.
\<close>

definition write_at :: "'a array_nd \<Rightarrow> nat list list \<Rightarrow> 'a list \<Rightarrow> 'a array_nd" where
  "write_at a cs vals =
     a\<lparr>elems := (\<lambda>p. case map_of (zip cs vals) p of None \<Rightarrow> elems a p | Some v \<Rightarrow> v)\<rparr>"

text \<open>Running a list of fallible steps in order, up to the first fault.\<close>

fun fold_result :: "('x \<Rightarrow> 's \<Rightarrow> fault + 's) \<Rightarrow> 'x list \<Rightarrow> 's \<Rightarrow> fault + 's" where
  "fold_result f [] a = Inr a"
| "fold_result f (x # xs) a =
     (case f x a of Inl e \<Rightarrow> Inl e | Inr a' \<Rightarrow> fold_result f xs a')"

fun collect :: "(fault + 'a) list \<Rightarrow> fault + 'a list" where
  "collect [] = Inr []"
| "collect (r # rs) =
     (case r of
        Inl e \<Rightarrow> Inl e
      | Inr x \<Rightarrow> (case collect rs of Inl e \<Rightarrow> Inl e | Inr xs \<Rightarrow> Inr (x # xs)))"

text \<open>
  An elementwise assignment \<open>out = f(a)\<close> whose element computation can fault.
\<close>

definition array_apply :: "(real \<Rightarrow> fault + real) \<Rightarrow> real array_nd \<Rightarrow> fault + real array_nd" where
  "array_apply f a =
     (case collect (map (\<lambda>p. f (elems a p)) (coords (shape a))) of
        Inl e \<Rightarrow> Inl e
      | Inr vals \<Rightarrow> Inr (write_at a (coords (shape a)) vals))"

section \<open>The separable sweep\<close>

text \<open>
  Modelled from the spec: \<open>slicer\<close> of \<open>slice.hpp\<close>, which is not among the sources.
  With the free axis \<open>d\<close>, the slicer visits every one-dimensional line of the array
  along axis \<open>d\<close> once. A line is named by its coordinate with entry \<open>0\<close> on axis \<open>d\<close>;
  \<open>line_coords\<close> are the coordinates of the view \<open>a.view(*nav)\<close> of that line.
\<close>

definition slicer_lines :: "nat list \<Rightarrow> nat \<Rightarrow> nat list list" where
  "slicer_lines sh d = coords (sh[d := 1])"

definition line_coords :: "nat list \<Rightarrow> nat \<Rightarrow> nat list \<Rightarrow> nat list list" where
  "line_coords sh d b = map (\<lambda>i. b[d := i]) [0..<sh ! d]"

text \<open>
  The body of the loops of \<open>distance_transform_impl\<close> for one line \<open>b\<close> along axis
  \<open>d\<close>: \<open>distance_parabola(out.view(*nav), out.view(*nav), sigmas[d], invert)\<close>.
  Both calls in the source pass the same array as \<open>in\<close> and as \<open>out\<close>, which is the
  case modelled here.
\<close>

definition line_pass ::
  "elem_type \<Rightarrow> real list \<Rightarrow> bool \<Rightarrow> nat \<Rightarrow> nat list \<Rightarrow> real array_nd \<Rightarrow> fault + real array_nd"
where
  "line_pass t sigmas invert d b a =
     (if d < length sigmas
      then (case distance_parabola t (map (elems a) (line_coords (shape a) d b))
                   (sigmas ! d) invert of
              Inl e \<Rightarrow> Inl e
            | Inr vals \<Rightarrow> Inr (write_at a (line_coords (shape a) d b) vals))
      else Inl OutOfBounds)"

definition axis_pass ::
  "elem_type \<Rightarrow> real list \<Rightarrow> bool \<Rightarrow> nat \<Rightarrow> real array_nd \<Rightarrow> fault + real array_nd"
where
  "axis_pass t sigmas invert d a =
     fold_result (line_pass t sigmas invert d) (slicer_lines (shape a) d) a"

text \<open>
  \<open>distance_transform_impl\<close>: the last axis first, then the axes \<open>N-2\<close> down to \<open>0\<close>.
  An array of dimension \<open>0\<close> has no axis \<open>N-1\<close>.
\<close>

definition distance_transform_impl ::
  "elem_type \<Rightarrow> real array_nd \<Rightarrow> real list \<Rightarrow> bool \<Rightarrow> fault + real array_nd"
where
  "distance_transform_impl t a sigmas invert =
     (let N = length (shape a)
      in if N = 0 then Inl OutOfBounds
         else (case axis_pass t sigmas invert (N - 1) a of
                 Inl e \<Rightarrow> Inl e
               | Inr a' \<Rightarrow> fold_result (axis_pass t sigmas invert) (rev [0..<N - 1]) a'))"

section \<open>The entry points\<close>

text \<open>
  The first loop of \<open>impl\<close>, after \<open>k\<close> iterations: the pair (\<open>inf\<close>, \<open>pitch_is_real\<close>),
  the variable \<open>inf\<close> being written \<open>inf0\<close>.
  \<open>int(pixel_pitch[k])\<close> is taken without the bound of \<open>int\<close>.
\<close>

fun pitch_scan :: "real list \<Rightarrow> nat list \<Rightarrow> nat \<Rightarrow> fault + (real \<times> bool)" where
  "pitch_scan pixel_pitch sh 0 = Inr (1, False)"
| "pitch_scan pixel_pitch sh (Suc k) =
     (case pitch_scan pixel_pitch sh k of
        Inl e \<Rightarrow> Inl e
      | Inr (inf0, pitch_is_real) \<Rightarrow>
          if k < length pixel_pitch
          then Inr (inf0 + sq (pixel_pitch ! k * real (sh ! k)),
                    pitch_is_real \<or> trunc (pixel_pitch ! k) \<noteq> pixel_pitch ! k)
          else Inl OutOfBounds)"

text \<open>
  The seeding expressions \<open>where(equal(in, 0), inf, 0.0)\<close> for \<open>background\<close> and
  \<open>where(not_equal(in, 0), inf, 0.0)\<close> otherwise; \<open>where(c, x, y)\<close> is \<open>x\<close> where \<open>c\<close>
  holds and \<open>y\<close> elsewhere.
\<close>

definition seed :: "int array_nd \<Rightarrow> bool \<Rightarrow> real \<Rightarrow> real array_nd" where
  "seed src background inf0 =
     \<lparr>shape = shape src,
      elems = (\<lambda>p. if background
                    then (if elems src p = 0 then inf0 else 0)
                    else (if elems src p \<noteq> 0 then inf0 else 0))\<rparr>"

text \<open>
  \<open>where(tmp > highest, highest, where(tmp < lowest, lowest, round(tmp)))\<close> at one
  element.
\<close>

definition clamp_round :: "elem_type \<Rightarrow> real \<Rightarrow> real" where
  "clamp_round t x =
     (if x > highest t then highest t
      else if x < lowest t then lowest t
      else round_half_away x)"

text \<open>
  \<open>distance_transform_squared_functor::impl\<close> with four arguments. The destination
  \<open>out\<close> is given by its element type \<open>t\<close>; its shape is taken to be the shape of the
  source, and the result is its contents after the call.
\<close>

definition distance_transform_squared ::
  "elem_type \<Rightarrow> int array_nd \<Rightarrow> bool \<Rightarrow> real list \<Rightarrow> fault + real array_nd"
where
  "distance_transform_squared t src background pixel_pitch =
     (case pitch_scan pixel_pitch (shape src) (length (shape src)) of
        Inl e \<Rightarrow> Inl e
      | Inr (inf0, pitch_is_real) \<Rightarrow>
          if is_integral t \<and> (pitch_is_real \<or> inf0 > highest t)
          then (case distance_transform_impl Floating (seed src background inf0)
                       pixel_pitch False of
                  Inl e \<Rightarrow> Inl e
                | Inr tmp \<Rightarrow> array_apply (\<lambda>x. from_double t (clamp_round t x)) tmp)
          else (case array_apply (from_double t) (seed src background inf0) of
                  Inl e \<Rightarrow> Inl e
                | Inr out \<Rightarrow> distance_transform_impl t out pixel_pitch False))"

text \<open>
  The overload of \<open>impl\<close> without a pitch; its \<open>background\<close> argument may be omitted
  (\<open>None\<close>).
\<close>

definition distance_transform_squared_default ::
  "elem_type \<Rightarrow> int array_nd \<Rightarrow> bool option \<Rightarrow> fault + real array_nd"
where
  "distance_transform_squared_default t src background_arg =
     (let background = (case background_arg of None \<Rightarrow> False | Some b \<Rightarrow> b);
          pixel_pitch = replicate (length (shape src)) 1
      in distance_transform_squared t src background pixel_pitch)"

text \<open>The assignment \<open>out = sqrt(out)\<close> at one element of type \<open>t\<close>.\<close>

definition sqrt_elem :: "elem_type \<Rightarrow> real \<Rightarrow> fault + real" where
  "sqrt_elem t x = (if x < 0 then Inl NegativeRoot else from_double t (sqrt x))"

definition distance_transform ::
  "elem_type \<Rightarrow> int array_nd \<Rightarrow> bool \<Rightarrow> real list \<Rightarrow> fault + real array_nd"
where
  "distance_transform t src background pixel_pitch =
     (case distance_transform_squared t src background pixel_pitch of
        Inl e \<Rightarrow> Inl e
      | Inr out \<Rightarrow> array_apply (sqrt_elem t) out)"

definition distance_transform_default ::
  "elem_type \<Rightarrow> int array_nd \<Rightarrow> bool option \<Rightarrow> fault + real array_nd"
where
  "distance_transform_default t src background_arg =
     (let background = (case background_arg of None \<Rightarrow> False | Some b \<Rightarrow> b)
      in case distance_transform_squared_default t src (Some background) of
           Inl e \<Rightarrow> Inl e
         | Inr out \<Rightarrow> array_apply (sqrt_elem t) out)"

text \<open>A two-dimensional array from its rows.\<close>

definition of_rows :: "'a list list \<Rightarrow> 'a array_nd" where
  "of_rows rows =
     \<lparr>shape = [length rows, length (hd rows)],
      elems = (\<lambda>p. rows ! (p ! 0) ! (p ! 1))\<rparr>"

definition of_line :: "'a list \<Rightarrow> 'a array_nd" where
  "of_line xs = \<lparr>shape = [length xs], elems = (\<lambda>p. xs ! (p ! 0))\<rparr>"

section \<open>Notions of the verification\<close>

text \<open>
  The element types whose difference \<open>in(k) - s.apex_height\<close> is the difference of
  the numbers: all but the unsigned types of 32 bits or more.
\<close>

definition exact_difference :: "elem_type \<Rightarrow> bool" where
  "exact_difference t = (case t of Floating \<Rightarrow> True | Integral sg bits \<Rightarrow> sg \<or> bits < 32)"

text \<open>
  The abscissa where the parabola of the stack entry \<open>s\<close> meets the parabola with
  apex \<open>(c, v)\<close>, as the forward pass computes it (with the exact difference).
\<close>

definition crossing :: "real \<Rightarrow> distance_parabola_stack_entry \<Rightarrow> real \<Rightarrow> real \<Rightarrow> real" where
  "crossing sigma2 s c v =
     c + (v - apex_height s - sigma2 * sq (c - center s)) / ((2 * sigma2) * (c - center s))"

text \<open>
  The shape of a stack, top first: the bottom entry starts at \<open>0\<close>; every other
  entry starts where its parabola meets the parabola of the entry below, not to the left
  of where that one starts; every entry but the top ends where the next one starts, or
  at \<open>w\<close> if that is smaller; the centers grow from the bottom to the top.
\<close>

fun linked :: "real \<Rightarrow> real \<Rightarrow> distance_parabola_stack_entry list \<Rightarrow> bool" where
  "linked sigma2 w [] = False"
| "linked sigma2 w [e] = (left e = 0)"
| "linked sigma2 w (u # l # rest) =
     (center l < center u \<and> left l \<le> left u \<and> right l = min w (left u) \<and>
      left u = crossing sigma2 l (center u) (apex_height u) \<and> linked sigma2 w (l # rest))"

text \<open>
  The interval \<open>[left, right)\<close> of an entry; it is empty when \<open>right \<le> left\<close>.
\<close>

definition interval :: "distance_parabola_stack_entry \<Rightarrow> real set" where
  "interval e = {left e ..< right e}"

text \<open>
  An entry that stands for one of the samples \<open>0, \<dots>, n\<close> of the line.
\<close>

definition is_sample :: "real list \<Rightarrow> nat \<Rightarrow> distance_parabola_stack_entry \<Rightarrow> bool" where
  "is_sample line n e = (\<exists>c \<le> n. center e = real c \<and> apex_height e = line ! c)"

text \<open>
  What holds of the stack after \<open>n\<close> iterations of the forward pass.
\<close>

definition stack_inv ::
  "real \<Rightarrow> real list \<Rightarrow> nat \<Rightarrow> distance_parabola_stack_entry list \<Rightarrow> bool" where
  "stack_inv sigma2 line n stack =
     (linked sigma2 (real (length line)) stack \<and>
      right (hd stack) = real (length line) \<and>
      center (hd stack) = real n \<and>
      (\<forall>e \<in> set stack. is_sample line n e))"

text \<open>
  The parabola anchored at sample \<open>j\<close> of the line, and the parabola of a stack
  entry.
\<close>

definition parabola :: "real \<Rightarrow> real list \<Rightarrow> nat \<Rightarrow> real \<Rightarrow> real" where
  "parabola sigma2 line j x = sigma2 * sq (x - real j) + line ! j"

definition entry_parabola :: "real \<Rightarrow> distance_parabola_stack_entry \<Rightarrow> real \<Rightarrow> real" where
  "entry_parabola sigma2 e x = sigma2 * sq (x - center e) + apex_height e"

text \<open>
  The entry responsible for the abscissa \<open>x\<close>: the topmost one that starts at or
  before \<open>x\<close>.
\<close>

fun pick :: "real \<Rightarrow> distance_parabola_stack_entry list \<Rightarrow> distance_parabola_stack_entry option" where
  "pick x [] = None"
| "pick x (e # es) = (if left e \<le> x then Some e else pick x es)"

text \<open>
  The stack describes the lower envelope of the parabolas of the samples
  \<open>0, \<dots>, n\<close> on the non-negative abscissas.
\<close>

definition lower_env ::
  "real \<Rightarrow> real list \<Rightarrow> nat \<Rightarrow> distance_parabola_stack_entry list \<Rightarrow> bool" where
  "lower_env sigma2 line n stack =
     (\<forall>x\<ge>0. \<forall>e. pick x stack = Some e \<longrightarrow>
        (\<forall>j\<le>n. entry_parabola sigma2 e x \<le> parabola sigma2 line j x))"

text \<open>
  The lower envelope of the parabolas of a line at position \<open>i\<close>.
\<close>

definition envelope_value :: "real \<Rightarrow> real list \<Rightarrow> nat \<Rightarrow> real" where
  "envelope_value sigma line i =
     Min ((\<lambda>j. sq sigma * sq (real i - real j) + line ! j) ` {..<length line})"

text \<open>
  A coordinate inside a shape.
\<close>

definition in_bounds :: "nat list \<Rightarrow> nat list \<Rightarrow> bool" where
  "in_bounds sh p = list_all2 (<) p sh"

text \<open>
  A value an integral array of type \<open>t\<close> holds without conversion when all its
  values lie between \<open>0\<close> and \<open>M\<close>; no condition for a floating type.
\<close>

definition fits :: "elem_type \<Rightarrow> real \<Rightarrow> real \<Rightarrow> bool" where
  "fits t M x = (is_integral t \<longrightarrow> x \<in> \<int> \<and> 0 \<le> x \<and> x \<le> M)"

text \<open>
  The squared distance between \<open>p\<close> and \<open>q\<close> along the axes \<open>d, \<dots>, N-1\<close>.
\<close>

definition axis_sum :: "real list \<Rightarrow> nat \<Rightarrow> nat \<Rightarrow> nat list \<Rightarrow> nat list \<Rightarrow> real" where
  "axis_sum sigmas d N p q = (\<Sum>i = d..<N. sq (sigmas ! i) * sq (real (p ! i) - real (q ! i)))"

text \<open>
  The array \<open>a\<close> after the passes along the axes \<open>d, \<dots>, N-1\<close> over the field
  \<open>a0\<close>: at \<open>p\<close> it holds the least value of \<open>axis_sum \<dots> p q + a0 q\<close> over the
  coordinates \<open>q\<close> that agree with \<open>p\<close> on the axes before \<open>d\<close>.
\<close>

definition swept ::
  "elem_type \<Rightarrow> real \<Rightarrow> real list \<Rightarrow> nat list \<Rightarrow> (nat list \<Rightarrow> real) \<Rightarrow> nat \<Rightarrow> real array_nd \<Rightarrow> bool" where
  "swept t M sigmas sh a0 d a =
     (shape a = sh \<and>
      (\<forall>p. in_bounds sh p \<longrightarrow>
         fits t M (elems a p) \<and>
         (\<forall>q. in_bounds sh q \<and> (\<forall>i<d. q ! i = p ! i) \<longrightarrow>
              elems a p \<le> axis_sum sigmas d (length sh) p q + a0 q) \<and>
         (\<exists>q. in_bounds sh q \<and> (\<forall>i<d. q ! i = p ! i) \<and>
              elems a p = axis_sum sigmas d (length sh) p q + a0 q)))"

text \<open>
  The value \<open>inf\<close> and the flag \<open>pitch_is_real\<close> that the first loop of \<open>impl\<close>
  computes, and the condition under which \<open>impl\<close> works on a temporary array.
\<close>

definition sentinel :: "real list \<Rightarrow> nat list \<Rightarrow> real" where
  "sentinel pitch sh = 1 + sum_list (map (\<lambda>k. sq (pitch ! k * real (sh ! k))) [0..<length sh])"

definition pitch_is_real :: "real list \<Rightarrow> nat list \<Rightarrow> bool" where
  "pitch_is_real pitch sh = list_ex (\<lambda>k. trunc (pitch ! k) \<noteq> pitch ! k) [0..<length sh]"

definition uses_temporary :: "elem_type \<Rightarrow> real list \<Rightarrow> nat list \<Rightarrow> bool" where
  "uses_temporary t pitch sh =
     (is_integral t \<and> (pitch_is_real pitch sh \<or> sentinel pitch sh > highest t))"

text \<open>
  The squared distance of two coordinates, weighted by the pitch; the positions whose
  seed value is \<open>0\<close>; and the least squared distance from \<open>p\<close> to such a position, found
  by trying them all.
\<close>

definition squared_distance :: "real list \<Rightarrow> nat list \<Rightarrow> nat list \<Rightarrow> real" where
  "squared_distance pitch p q =
     sum_list (map (\<lambda>i. sq (pitch ! i * (real (p ! i) - real (q ! i)))) [0..<length p])"

definition seed_positions :: "int array_nd \<Rightarrow> bool \<Rightarrow> nat list list" where
  "seed_positions src background =
     filter (\<lambda>q. elems (seed src background 1) q = 0) (coords (shape src))"

definition exhaustive_minimum :: "int array_nd \<Rightarrow> bool \<Rightarrow> real list \<Rightarrow> nat list \<Rightarrow> real" where
  "exhaustive_minimum src background pitch p =
     Min (set (map (squared_distance pitch p) (seed_positions src background)))"

text \<open>
  A value that is not negative and, for an integral type, within its range.
\<close>

definition good :: "elem_type \<Rightarrow> real \<Rightarrow> bool" where
  "good t x = (0 \<le> x \<and> (is_integral t \<longrightarrow> lowest t \<le> x \<and> x \<le> highest t))"

text \<open>
  The reading of ``contiguous'' that the stack satisfies: the bottom entry starts at
  \<open>0\<close>, the entries start in order, and each entry ends where the next one starts, or at
  \<open>w\<close> when the next one starts beyond it.
\<close>

fun contiguous :: "real \<Rightarrow> distance_parabola_stack_entry list \<Rightarrow> bool" where
  "contiguous w [] = False"
| "contiguous w [e] = (left e = 0)"
| "contiguous w (u # l # rest) =
     (right l = min w (left u) \<and> left l \<le> left u \<and> contiguous w (l # rest))"

text \<open>
  Example masks: a 20 by 20 mask whose only nonzero pixel is the corner \<open>[0, 0]\<close>, and
  the mask that is zero exactly where a given mask is not.
\<close>

definition corner_mask :: "int array_nd" where
  "corner_mask = \<lparr>shape = [20, 20], elems = (\<lambda>p. if p = [0, 0] then 1 else 0)\<rparr>"

definition invert_mask :: "int array_nd \<Rightarrow> int array_nd" where
  "invert_mask src = src\<lparr>elems := (\<lambda>p. if elems src p = 0 then 1 else 0)\<rparr>"

section \<open>The forward pass keeps the stack linked\<close>

lemma elem_sub_exact: "exact_difference t \<Longrightarrow> elem_sub t a b = a - b"
  by (cases t) (auto simp: exact_difference_def)

lemma crossing_alt:
  assumes "sigma2 \<noteq> 0" "center s \<noteq> c"
  shows "crossing sigma2 s c v = (center s + c) / 2 + (v - apex_height s) / (2 * sigma2 * (c - center s))"
  using assms by (simp add: crossing_def sq_def field_simps)

lemma crossing_times:
  assumes "sigma2 \<noteq> 0" "center s \<noteq> c"
  shows "crossing sigma2 s c v * (c - center s) =
         (c * c - center s * center s) / 2 + (v - apex_height s) / (2 * sigma2)"
proof -
  have "crossing sigma2 s c v * (c - center s) =
        (center s + c) / 2 * (c - center s) +
        (v - apex_height s) / (2 * sigma2 * (c - center s)) * (c - center s)"
    by (simp add: crossing_alt[OF assms] algebra_simps)
  also have "(v - apex_height s) / (2 * sigma2 * (c - center s)) * (c - center s) =
        (v - apex_height s) / (2 * sigma2)"
    using assms by simp
  also have "(center s + c) / 2 * (c - center s) = (c * c - center s * center s) / 2"
    by (simp add: algebra_simps)
  finally show ?thesis .
qed

lemma crossing_three:
  assumes s: "sigma2 \<noteq> 0" and ab: "center l < center m" and bc: "center m < c"
    and lt: "crossing sigma2 m c v < crossing sigma2 l (center m) (apex_height m)"
  shows "crossing sigma2 l c v < crossing sigma2 l (center m) (apex_height m)"
proof -
  let ?a = "center l" and ?b = "center m"
  let ?Xab = "crossing sigma2 l ?b (apex_height m)"
  let ?Xbc = "crossing sigma2 m c v"
  let ?Xac = "crossing sigma2 l c v"
  have 1: "?Xac * (c - ?a) = (c * c - ?a * ?a) / 2 + (v - apex_height l) / (2 * sigma2)"
    using crossing_times[OF s, of l c v] ab bc by simp
  have 2: "?Xab * (?b - ?a) = (?b * ?b - ?a * ?a) / 2 + (apex_height m - apex_height l) / (2 * sigma2)"
    using crossing_times[OF s, of l ?b "apex_height m"] ab by simp
  have 3: "?Xbc * (c - ?b) = (c * c - ?b * ?b) / 2 + (v - apex_height m) / (2 * sigma2)"
    using crossing_times[OF s, of m c v] bc by simp
  have id: "?Xac * (c - ?a) = ?Xab * (?b - ?a) + ?Xbc * (c - ?b)"
    unfolding 1 2 3 by (simp add: diff_divide_distrib)
  have "?Xbc * (c - ?b) < ?Xab * (c - ?b)" using lt bc by simp
  then have "?Xac * (c - ?a) < ?Xab * (?b - ?a) + ?Xab * (c - ?b)" using id by simp
  also have "\<dots> = ?Xab * (c - ?a)" by (simp add: algebra_simps)
  finally show ?thesis using ab bc by simp
qed

lemma linked_centers: "linked sigma2 w (s # below) \<Longrightarrow> e \<in> set below \<Longrightarrow> center e < center s"
proof (induction below arbitrary: s)
  case Nil then show ?case by simp
next
  case (Cons l rest)
  then show ?case by (auto intro: less_trans)
qed

lemma linked_tail: "linked sigma2 w (s # l # rest) \<Longrightarrow> linked sigma2 w (l # rest)"
  by simp

lemma intersect_no_zero_divisor:
  assumes "sigma2 \<noteq> 0" "\<forall>e \<in> set (s # below). center e < current"
  shows "intersect t sigma2 current v s below \<noteq> Inl ZeroDivisor"
  using assms
proof (induction below arbitrary: s)
  case Nil
  then show ?case by (simp add: Let_def)
next
  case (Cons l rest)
  have "intersect t sigma2 current v l rest \<noteq> Inl ZeroDivisor"
    using Cons.IH[of l] Cons.prems by simp
  then show ?case using Cons.prems by (simp add: Let_def)
qed

lemma intersect_total:
  assumes "sigma2 \<noteq> 0" "\<forall>e \<in> set (s # below). center e < current"
  shows "\<exists>x st. intersect t sigma2 current v s below = Inr (x, st)"
  using assms
proof (induction below arbitrary: s)
  case Nil
  then show ?case by (simp add: Let_def)
next
  case (Cons l rest)
  have "\<exists>x st. intersect t sigma2 current v l rest = Inr (x, st)"
    using Cons.IH[of l] Cons.prems by simp
  then show ?case using Cons.prems by (simp add: Let_def)
qed

lemma intersect_linked:
  assumes "sigma2 \<noteq> 0" "exact_difference t"
    and "linked sigma2 w (s # below)"
    and "center s < c"
    and "right s = w \<or> crossing sigma2 s c v < right s"
    and "right s \<le> w"
    and "intersect t sigma2 c v s below = Inr (x, st)"
  shows "linked sigma2 w (\<lparr>left = x, center = c, right = w, apex_height = v\<rparr> # st)"
  using assms(3-)
proof (induction below arbitrary: s)
  case Nil
  let ?x = "crossing sigma2 s c v"
  have d: "(2 * sigma2) * (c - center s) \<noteq> 0" using assms(1) Nil.prems(2) by simp
  have ix: "c + (elem_sub t v (apex_height s) - sigma2 * sq (c - center s)) / ((2 * sigma2) * (c - center s)) = ?x"
    by (simp add: crossing_def elem_sub_exact[OF assms(2)])
  show ?case
  proof (cases "?x < left s")
    case True
    then have "x = 0" "st = []" using Nil.prems(5) d ix by (auto simp: Let_def)
    then show ?thesis by simp
  next
    case False
    show ?thesis
    proof (cases "?x < right s")
      case True
      then have "x = ?x" "st = [s\<lparr>right := ?x\<rparr>]" using Nil.prems(5) d ix False by (auto simp: Let_def)
      moreover have "?x \<le> w" using True Nil.prems(4) by auto
      ultimately show ?thesis using Nil.prems False True
        by (auto simp: crossing_def)
    next
      case nr: False
      then have "x = ?x" "st = [s]" using Nil.prems(5) d ix False by (auto simp: Let_def)
      moreover have "right s = w" using nr Nil.prems(3) by auto
      ultimately show ?thesis using Nil.prems False nr
        by (auto simp: crossing_def)
    qed
  qed
next
  case (Cons l rest)
  let ?x = "crossing sigma2 s c v"
  have d: "(2 * sigma2) * (c - center s) \<noteq> 0" using assms(1) Cons.prems(2) by simp
  have ix: "c + (elem_sub t v (apex_height s) - sigma2 * sq (c - center s)) / ((2 * sigma2) * (c - center s)) = ?x"
    by (simp add: crossing_def elem_sub_exact[OF assms(2)])
  have lk: "center l < center s" "left l \<le> left s" "right l = min w (left s)"
    "left s = crossing sigma2 l (center s) (apex_height s)" "linked sigma2 w (l # rest)"
    using Cons.prems(1) by auto
  show ?case
  proof (cases "?x < left s")
    case True
    then have rec: "intersect t sigma2 c v l rest = Inr (x, st)"
      using Cons.prems(5) d ix by (auto simp: Let_def)
    have "crossing sigma2 l c v < left s"
      using crossing_three[OF assms(1) lk(1) Cons.prems(2)] True lk(4) by simp
    then have "right l = w \<or> crossing sigma2 l c v < right l"
      using lk(3) by (auto simp: min_def)
    moreover have "center l < c" using lk(1) Cons.prems(2) by simp
    moreover have "right l \<le> w" using lk(3) by simp
    ultimately show ?thesis using Cons.IH[OF lk(5) _ _ _ rec] by simp
  next
    case False
    show ?thesis
    proof (cases "?x < right s")
      case True
      then have "x = ?x" "st = s\<lparr>right := ?x\<rparr> # l # rest" using Cons.prems(5) d ix False by (auto simp: Let_def)
      moreover have "?x \<le> w" using True Cons.prems(4) by auto
      ultimately show ?thesis using Cons.prems False True
        by (auto simp: crossing_def)
    next
      case nr: False
      then have "x = ?x" "st = s # l # rest" using Cons.prems(5) d ix False by (auto simp: Let_def)
      moreover have "right s = w" using nr Cons.prems(3) by auto
      ultimately show ?thesis using Cons.prems False nr
        by (auto simp: crossing_def)
    qed
  qed
qed

lemma is_sample_mono: "is_sample line n e \<Longrightarrow> n \<le> m \<Longrightarrow> is_sample line m e"
  by (auto simp: is_sample_def intro: le_trans)

lemma intersect_subset:
  "intersect t sigma2 c v s below = Inr (x, st) \<Longrightarrow>
   \<forall>e \<in> set st. \<exists>e' \<in> set (s # below). center e = center e' \<and> apex_height e = apex_height e'"
proof (induction below arbitrary: s)
  case Nil
  then show ?case by (auto simp: Let_def split: if_splits)
next
  case (Cons l rest)
  show ?case
  proof (cases "intersect t sigma2 c v l rest = Inr (x, st)")
    case True
    then show ?thesis using Cons.IH[of l] by auto
  next
    case False
    then show ?thesis using Cons.prems by (auto simp: Let_def split: if_splits)
  qed
qed

lemma samples_below:
  assumes "\<forall>e \<in> set stack. is_sample line n e" 
  shows "\<forall>e \<in> set stack. center e < real (Suc n)"
  using assms by (fastforce simp: is_sample_def)

lemma forward_step_inv:
  assumes s: "sigma2 \<noteq> 0" and ex: "exact_difference t"
    and inv: "stack_inv sigma2 line n stack"
  shows "\<exists>stack'. forward_step t sigma2 line (Suc n) stack = Inr stack' \<and>
           stack_inv sigma2 line (Suc n) stack'"
proof -
  let ?w = "real (length line)"
  from inv obtain top below where st: "stack = top # below"
    by (cases stack) (auto simp: stack_inv_def)
  have lk: "linked sigma2 ?w (top # below)" and rt: "right top = ?w" and ct: "center top = real n"
    and sm: "\<forall>e \<in> set (top # below). is_sample line n e"
    using inv st by (auto simp: stack_inv_def)
  have cs: "\<forall>e \<in> set (top # below). center e < real (Suc n)"
    using samples_below[OF sm] .
  obtain x st' where isx: "intersect t sigma2 (real (Suc n)) (line ! Suc n) top below = Inr (x, st')"
    using intersect_total[OF s cs] by blast
  let ?new = "\<lparr>left = x, center = real (Suc n), right = ?w, apex_height = line ! Suc n\<rparr>"
  have fs: "forward_step t sigma2 line (Suc n) stack = Inr (?new # st')"
    using isx st by (simp add: forward_step_def)
  have "linked sigma2 ?w (?new # st')"
    by (rule intersect_linked[OF s ex lk _ _ _ isx]) (use ct rt in auto)
  moreover have "\<forall>e \<in> set st'. is_sample line (Suc n) e"
  proof
    fix e assume "e \<in> set st'"
    then obtain e' where e': "e' \<in> set (top # below)" "center e = center e'" "apex_height e = apex_height e'"
      using intersect_subset[OF isx] by blast
    then have "is_sample line n e'" using sm by blast
    then show "is_sample line (Suc n) e"
      using e' by (auto simp: is_sample_def intro: le_SucI)
  qed
  moreover have "is_sample line (Suc n) ?new" by (auto simp: is_sample_def)
  ultimately have "stack_inv sigma2 line (Suc n) (?new # st')"
    by (simp add: stack_inv_def)
  then show ?thesis using fs by blast
qed

lemma forward_pass_inv:
  assumes "sigma2 \<noteq> 0" "exact_difference t"
  shows "\<exists>stack. forward_pass t sigma2 line n = Inr stack \<and> stack_inv sigma2 line n stack"
proof (induction n)
  case 0
  show ?case by (simp add: stack_inv_def is_sample_def)
next
  case (Suc n)
  then obtain stack where st: "forward_pass t sigma2 line n = Inr stack" "stack_inv sigma2 line n stack"
    by blast
  from forward_step_inv[OF assms st(2)] st(1) show ?case by auto
qed

lemma linked_left_nonneg: "linked sigma2 w stack \<Longrightarrow> e \<in> set stack \<Longrightarrow> 0 \<le> left e"
proof (induction stack arbitrary: e)
  case Nil then show ?case by simp
next
  case (Cons u rest)
  show ?case
  proof (cases rest)
    case Nil then show ?thesis using Cons.prems by simp
  next
    case (Cons l rest')
    have "0 \<le> left l" using Cons.IH[of l] Cons.prems(1) Cons by simp
    then show ?thesis using Cons.IH[of e] Cons.prems Cons by auto
  qed
qed

lemma linked_centers_sorted:
  "linked sigma2 w stack \<Longrightarrow> sorted_wrt (\<lambda>u l. center l < center u) stack"
proof (induction stack)
  case Nil then show ?case by simp
next
  case (Cons u rest)
  show ?case
  proof (cases rest)
    case Nil then show ?thesis by simp
  next
    case (Cons l rest')
    then show ?thesis using Cons.IH Cons.prems linked_centers[of sigma2 w u rest] by auto
  qed
qed

lemma linked_below_union:
  assumes "linked sigma2 w (u # rest)" "0 \<le> w"
  shows "(\<Union>e \<in> set rest. interval e) = {0 ..< min w (left u)}"
  using assms
proof (induction rest arbitrary: u)
  case Nil
  then show ?case by simp
next
  case (Cons l rest)
  have lk: "left l \<le> left u" "right l = min w (left u)" "linked sigma2 w (l # rest)"
    using Cons.prems by auto
  have l0: "0 \<le> left l" using linked_left_nonneg[OF lk(3), of l] by simp
  have "(\<Union>e \<in> set (l # rest). interval e) = interval l \<union> {0 ..< min w (left l)}"
    using Cons.IH[OF lk(3) Cons.prems(2)] by simp
  also have "\<dots> = {0 ..< min w (left u)}"
    using lk l0 Cons.prems(2) by (auto simp: interval_def min_def)
  finally show ?case .
qed

lemma linked_union:
  assumes "linked sigma2 w stack" "right (hd stack) = w" "0 \<le> w"
  shows "(\<Union>e \<in> set stack. interval e) = {0 ..< w}"
proof -
  from assms(1) obtain u rest where st: "stack = u # rest" by (cases stack) auto
  have "0 \<le> left u" using linked_left_nonneg[OF assms(1), of u] st by simp
  then show ?thesis
    using linked_below_union[of sigma2 w u rest] assms st
    by (auto simp: interval_def min_def)
qed

lemma linked_disjoint:
  assumes "linked sigma2 w stack" "0 \<le> w"
  shows "sorted_wrt (\<lambda>u l. interval u \<inter> interval l = {}) stack"
  using assms
proof (induction stack)
  case Nil then show ?case by simp
next
  case (Cons u rest)
  show ?case
  proof (cases rest)
    case Nil then show ?thesis by simp
  next
    case (Cons l rest')
    then have lk: "linked sigma2 w rest" using Cons.prems by simp
    have un: "(\<Union>e \<in> set rest. interval e) = {0 ..< min w (left u)}"
      using linked_below_union[OF Cons.prems] .
    have "\<forall>l \<in> set rest. interval u \<inter> interval l = {}"
    proof
      fix e assume "e \<in> set rest"
      then have "interval e \<subseteq> {0 ..< min w (left u)}" using un by blast
      then show "interval u \<inter> interval e = {}" by (auto simp: interval_def)
    qed
    then show ?thesis using Cons.IH[OF lk Cons.prems(2)] by simp
  qed
qed

section \<open>The stack is the lower envelope\<close>

lemma sample_parabola:
  "is_sample line n e \<Longrightarrow> \<exists>c\<le>n. entry_parabola sigma2 e = parabola sigma2 line c"
  by (auto simp: is_sample_def entry_parabola_def parabola_def fun_eq_iff)

lemma crossing_le_iff:
  assumes "0 < sigma2" "center s < c"
  shows "sigma2 * sq (x - c) + v \<le> entry_parabola sigma2 s x \<longleftrightarrow> crossing sigma2 s c v \<le> x"
proof -
  let ?a = "center s" and ?h = "apex_height s"
  have d: "0 < 2 * sigma2 * (c - ?a)" using assms by simp
  have "sigma2 * sq (x - c) + v - entry_parabola sigma2 s x =
        (v - ?h) + sigma2 * (c - ?a) * (?a + c) - 2 * sigma2 * (c - ?a) * x"
    by (simp add: entry_parabola_def sq_def algebra_simps)
  then have "sigma2 * sq (x - c) + v \<le> entry_parabola sigma2 s x \<longleftrightarrow>
        (v - ?h) + sigma2 * (c - ?a) * (?a + c) \<le> (2 * sigma2 * (c - ?a)) * x"
    by linarith
  also have "\<dots> \<longleftrightarrow> ((v - ?h) + sigma2 * (c - ?a) * (?a + c)) / (2 * sigma2 * (c - ?a)) \<le> x"
    using d by (simp add: pos_divide_le_eq mult.commute)
  also have "((v - ?h) + sigma2 * (c - ?a) * (?a + c)) / (2 * sigma2 * (c - ?a)) = crossing sigma2 s c v"
  proof -
    have "crossing sigma2 s c v = (?a + c) / 2 + (v - ?h) / (2 * sigma2 * (c - ?a))"
      using crossing_alt[of sigma2 s c v] assms by simp
    also have "(?a + c) / 2 = (sigma2 * (c - ?a) * (?a + c)) / (2 * sigma2 * (c - ?a))"
    proof -
      have "(sigma2 * (c - ?a) * (?a + c)) / (2 * sigma2 * (c - ?a)) =
            ((sigma2 * (c - ?a)) * (?a + c)) / ((sigma2 * (c - ?a)) * 2)"
        by (simp add: mult.commute mult.left_commute)
      also have "\<dots> = (?a + c) / 2"
        using assms by (subst mult_divide_mult_cancel_left) auto
      finally show ?thesis by simp
    qed
    finally show ?thesis by (simp add: add_divide_distrib)
  qed
  finally show ?thesis .
qed

lemma pick_right_update [simp]: "pick x (s\<lparr>right := r\<rparr> # below) = (if left s \<le> x then Some (s\<lparr>right := r\<rparr>) else pick x below)"
  by simp

lemma entry_parabola_right_update [simp]: "entry_parabola sigma2 (s\<lparr>right := r\<rparr>) = entry_parabola sigma2 s"
  by (simp add: entry_parabola_def fun_eq_iff)

lemma linked_bottom_pick:
  "linked sigma2 w stack \<Longrightarrow> 0 \<le> x \<Longrightarrow> \<exists>e \<in> set stack. pick x stack = Some e"
proof (induction stack)
  case Nil then show ?case by simp
next
  case (Cons u rest)
  show ?case
  proof (cases rest)
    case Nil then show ?thesis using Cons.prems by simp
  next
    case (Cons l rest')
    then show ?thesis using Cons.IH Cons.prems by auto
  qed
qed

lemma intersect_env:
  assumes s: "0 < sigma2" and ex: "exact_difference t"
    and c: "c = real (Suc n)" and v: "v = line ! Suc n"
    and lk: "linked sigma2 w (s # below)"
    and sm: "\<forall>e \<in> set (s # below). is_sample line n e"
    and I: "\<forall>x\<ge>0. \<forall>e. pick x (s # below) = Some e \<longrightarrow>
              (\<forall>j\<le>n. entry_parabola sigma2 e x \<le> parabola sigma2 line j x) \<or>
              (\<forall>j\<le>n. sigma2 * sq (x - c) + v \<le> parabola sigma2 line j x)"
    and r: "intersect t sigma2 c v s below = Inr (xs, st)"
  shows "lower_env sigma2 line (Suc n) (\<lparr>left = xs, center = c, right = w', apex_height = v\<rparr> # st)"
  using lk sm I r
proof (induction below arbitrary: s)
  case Nil
  let ?x = "crossing sigma2 s c v"
  let ?new = "\<lambda>x. sigma2 * sq (x - c) + v"
  have cs: "center s < c" using Nil.prems(2) c by (auto simp: is_sample_def)
  have d: "(2 * sigma2) * (c - center s) \<noteq> 0" using s cs by simp
  have ix: "c + (elem_sub t v (apex_height s) - sigma2 * sq (c - center s)) / ((2 * sigma2) * (c - center s)) = ?x"
    by (simp add: crossing_def elem_sub_exact[OF ex])
  obtain cc where cc: "cc \<le> n" "entry_parabola sigma2 s = parabola sigma2 line cc"
    using sample_parabola[of line n s sigma2] Nil.prems(2) by auto
  have newpar: "\<And>x. ?new x = parabola sigma2 line (Suc n) x"
    by (simp add: parabola_def c v)
  have l0: "left s = 0" using Nil.prems(1) by simp
  have key: "\<And>x. ?new x \<le> entry_parabola sigma2 s x \<longleftrightarrow> ?x \<le> x"
    using crossing_le_iff[OF s cs] by simp
  show ?case
  proof (cases "?x < left s")
    case True
    then have res: "xs = 0" "st = []" using Nil.prems(4) d ix by (auto simp: Let_def)
    have "\<forall>j\<le>Suc n. ?new x \<le> parabola sigma2 line j x" if "0 \<le> x" for x
    proof -
      have "?new x \<le> entry_parabola sigma2 s x" using key[of x] True l0 that by simp
      moreover have "(\<forall>j\<le>n. entry_parabola sigma2 s x \<le> parabola sigma2 line j x) \<or>
              (\<forall>j\<le>n. ?new x \<le> parabola sigma2 line j x)"
        using Nil.prems(3) that l0 by simp
      ultimately have "\<forall>j\<le>n. ?new x \<le> parabola sigma2 line j x" by (meson order_trans)
      then show ?thesis using newpar by (auto simp: le_Suc_eq)
    qed
    then show ?thesis using res by (simp add: lower_env_def entry_parabola_def)
  next
    case False
    then have res: "xs = ?x" "map left st = [left s]" "map (entry_parabola sigma2) st = [entry_parabola sigma2 s]"
      using Nil.prems(4) d ix by (auto simp: Let_def split: if_splits)
    then obtain s' where st: "st = [s']" "left s' = left s" "entry_parabola sigma2 s' = entry_parabola sigma2 s"
      by (cases st) auto
    have "\<forall>j\<le>Suc n. entry_parabola sigma2 e x \<le> parabola sigma2 line j x"
      if "0 \<le> x" and pk: "pick x (\<lparr>left = xs, center = c, right = w', apex_height = v\<rparr> # st) = Some e" for x e
    proof (cases "?x \<le> x")
      case True
      then have e: "\<And>y. entry_parabola sigma2 e y = ?new y" using pk res by (auto simp: entry_parabola_def)
      have "?new x \<le> entry_parabola sigma2 s x" using key[of x] True by simp
      moreover have "(\<forall>j\<le>n. entry_parabola sigma2 s x \<le> parabola sigma2 line j x) \<or>
              (\<forall>j\<le>n. ?new x \<le> parabola sigma2 line j x)"
        using Nil.prems(3) that l0 by simp
      ultimately have "\<forall>j\<le>n. ?new x \<le> parabola sigma2 line j x" by (meson order_trans)
      then show ?thesis using newpar e by (auto simp: le_Suc_eq)
    next
      case nx: False
      then have e: "e = s'" using pk res st l0 that by (auto split: if_splits)
      have lt: "entry_parabola sigma2 s x < ?new x" using key[of x] nx by simp
      have "(\<forall>j\<le>n. entry_parabola sigma2 s x \<le> parabola sigma2 line j x) \<or>
              (\<forall>j\<le>n. ?new x \<le> parabola sigma2 line j x)"
        using Nil.prems(3) that l0 by simp
      moreover have "\<not> (\<forall>j\<le>n. ?new x \<le> parabola sigma2 line j x)"
        using lt cc by (metis not_le)
      ultimately have "\<forall>j\<le>n. entry_parabola sigma2 s x \<le> parabola sigma2 line j x" by blast
      then show ?thesis using lt newpar e st by (auto simp: le_Suc_eq)
    qed
    then show ?thesis by (simp add: lower_env_def)
  qed
next
  case (Cons l rest)
  let ?x = "crossing sigma2 s c v"
  let ?new = "\<lambda>x. sigma2 * sq (x - c) + v"
  have cs: "center s < c" using Cons.prems(2) c by (auto simp: is_sample_def)
  have d: "(2 * sigma2) * (c - center s) \<noteq> 0" using s cs by simp
  have ix: "c + (elem_sub t v (apex_height s) - sigma2 * sq (c - center s)) / ((2 * sigma2) * (c - center s)) = ?x"
    by (simp add: crossing_def elem_sub_exact[OF ex])
  obtain cc where cc: "cc \<le> n" "entry_parabola sigma2 s = parabola sigma2 line cc"
    using sample_parabola[of line n s sigma2] Cons.prems(2) by auto
  have newpar: "\<And>x. ?new x = parabola sigma2 line (Suc n) x"
    by (simp add: parabola_def c v)
  have key: "\<And>x. ?new x \<le> entry_parabola sigma2 s x \<longleftrightarrow> ?x \<le> x"
    using crossing_le_iff[OF s cs] by simp
  have lk': "linked sigma2 w (l # rest)" using Cons.prems(1) by simp
  show ?case
  proof (cases "?x < left s")
    case True
    then have rec: "intersect t sigma2 c v l rest = Inr (xs, st)"
      using Cons.prems(4) d ix by (auto simp: Let_def)
    have I': "\<forall>x\<ge>0. \<forall>e. pick x (l # rest) = Some e \<longrightarrow>
              (\<forall>j\<le>n. entry_parabola sigma2 e x \<le> parabola sigma2 line j x) \<or>
              (\<forall>j\<le>n. ?new x \<le> parabola sigma2 line j x)"
    proof (intro allI impI)
      fix x e assume x0: "(0::real) \<le> x" and pk: "pick x (l # rest) = Some e"
      show "(\<forall>j\<le>n. entry_parabola sigma2 e x \<le> parabola sigma2 line j x) \<or>
              (\<forall>j\<le>n. ?new x \<le> parabola sigma2 line j x)"
      proof (cases "left s \<le> x")
        case ls: True
        then have "?new x \<le> entry_parabola sigma2 s x" using key[of x] True by simp
        moreover have "(\<forall>j\<le>n. entry_parabola sigma2 s x \<le> parabola sigma2 line j x) \<or>
              (\<forall>j\<le>n. ?new x \<le> parabola sigma2 line j x)"
          using Cons.prems(3) x0 ls by simp
        ultimately have "\<forall>j\<le>n. ?new x \<le> parabola sigma2 line j x" by (meson order_trans)
        then show ?thesis by simp
      next
        case False
        then have "pick x (s # l # rest) = Some e" using pk by simp
        then show ?thesis using Cons.prems(3) x0 by blast
      qed
    qed
    show ?thesis
      by (rule Cons.IH[OF lk' _ I' rec]) (use Cons.prems(2) in simp)
  next
    case False
    then have res: "xs = ?x" "map left st = map left (s # l # rest)"
      "map (entry_parabola sigma2) st = map (entry_parabola sigma2) (s # l # rest)"
      using Cons.prems(4) d ix by (auto simp: Let_def split: if_splits)
    then obtain s' where st: "st = s' # l # rest" "left s' = left s" "entry_parabola sigma2 s' = entry_parabola sigma2 s"
      using Cons.prems(4) d ix False by (auto simp: Let_def split: if_splits)
    have "\<forall>j\<le>Suc n. entry_parabola sigma2 e x \<le> parabola sigma2 line j x"
      if "0 \<le> x" and pk: "pick x (\<lparr>left = xs, center = c, right = w', apex_height = v\<rparr> # st) = Some e" for x e
    proof (cases "?x \<le> x")
      case True
      then have e: "\<And>y. entry_parabola sigma2 e y = ?new y" using pk res by (auto simp: entry_parabola_def)
      have "?new x \<le> entry_parabola sigma2 s x" using key[of x] True by simp
      moreover have "left s \<le> x" using False True by simp
      then have "(\<forall>j\<le>n. entry_parabola sigma2 s x \<le> parabola sigma2 line j x) \<or>
              (\<forall>j\<le>n. ?new x \<le> parabola sigma2 line j x)"
        using Cons.prems(3) that by simp
      ultimately have "\<forall>j\<le>n. ?new x \<le> parabola sigma2 line j x" by (meson order_trans)
      then show ?thesis using newpar e by (auto simp: le_Suc_eq)
    next
      case nx: False
      have lt: "entry_parabola sigma2 s x < ?new x" using key[of x] nx by simp
      have nb: "\<not> (\<forall>j\<le>n. ?new x \<le> parabola sigma2 line j x)"
        using lt cc by (metis not_le)
      have pk0: "pick x st = Some e" using pk res nx by simp
      obtain e0 where e0: "pick x (s # l # rest) = Some e0" "entry_parabola sigma2 e0 = entry_parabola sigma2 e"
        using pk0 st by (auto split: if_splits)
      have A: "\<forall>j\<le>n. entry_parabola sigma2 e x \<le> parabola sigma2 line j x"
        using Cons.prems(3) that(1) e0 nb by (metis)
      then have "entry_parabola sigma2 e x \<le> entry_parabola sigma2 s x" using cc by simp
      then have "entry_parabola sigma2 e x \<le> ?new x" using lt by simp
      then show ?thesis using A newpar by (auto simp: le_Suc_eq)
    qed
    then show ?thesis by (simp add: lower_env_def)
  qed
qed

lemma forward_step_env:
  assumes s: "0 < sigma2" and ex: "exact_difference t"
    and inv: "stack_inv sigma2 line n stack" and env: "lower_env sigma2 line n stack"
    and fs: "forward_step t sigma2 line (Suc n) stack = Inr stack'"
  shows "lower_env sigma2 line (Suc n) stack'"
proof -
  let ?w = "real (length line)"
  from inv obtain top below where st: "stack = top # below"
    by (cases stack) (auto simp: stack_inv_def)
  have lk: "linked sigma2 ?w (top # below)"
    and sm: "\<forall>e \<in> set (top # below). is_sample line n e"
    using inv st by (auto simp: stack_inv_def)
  obtain x st' where isx: "intersect t sigma2 (real (Suc n)) (line ! Suc n) top below = Inr (x, st')"
    and st': "stack' = \<lparr>left = x, center = real (Suc n), right = ?w, apex_height = line ! Suc n\<rparr> # st'"
    using fs st by (auto simp: forward_step_def split: sum.splits)
  have I: "\<forall>x\<ge>0. \<forall>e. pick x (top # below) = Some e \<longrightarrow>
              (\<forall>j\<le>n. entry_parabola sigma2 e x \<le> parabola sigma2 line j x) \<or>
              (\<forall>j\<le>n. sigma2 * sq (x - real (Suc n)) + line ! Suc n \<le> parabola sigma2 line j x)"
    using env st unfolding lower_env_def by blast
  show ?thesis
    unfolding st' by (rule intersect_env[OF s ex refl refl lk sm I isx])
qed

lemma forward_pass_env:
  assumes "0 < sigma2" "exact_difference t"
  shows "\<exists>stack. forward_pass t sigma2 line n = Inr stack \<and> stack_inv sigma2 line n stack \<and>
           lower_env sigma2 line n stack"
proof (induction n)
  case 0
  show ?case
    by (simp add: stack_inv_def is_sample_def lower_env_def entry_parabola_def parabola_def)
next
  case (Suc n)
  then obtain stack where st: "forward_pass t sigma2 line n = Inr stack"
    "stack_inv sigma2 line n stack" "lower_env sigma2 line n stack"
    by blast
  have nz: "sigma2 \<noteq> 0" using assms(1) by simp
  obtain stack' where st': "forward_step t sigma2 line (Suc n) stack = Inr stack'"
    "stack_inv sigma2 line (Suc n) stack'"
    using forward_step_inv[OF nz assms(2) st(2)] by blast
  have "lower_env sigma2 line (Suc n) stack'"
    using forward_step_env[OF assms st(2,3) st'(1)] .
  then show ?case using st(1) st' by simp
qed

section \<open>The second pass reads the envelope\<close>

lemma advance_advance: "x \<le> y \<Longrightarrow> advance y (advance x bs) = advance y bs"
  by (induction bs) auto

lemma advance_append:
  "advance x (as @ bs) = (case advance x as of [] \<Rightarrow> advance x bs | e # es \<Rightarrow> (e # es) @ bs)"
  by (induction as) auto

lemma advance_all: "\<forall>e\<in>set bs. right e \<le> x \<Longrightarrow> advance x bs = []"
  by (induction bs) auto

lemma linked_right_below:
  "linked sigma2 w (u # rest) \<Longrightarrow> e \<in> set rest \<Longrightarrow> right e \<le> min w (left u)"
proof (induction rest arbitrary: u)
  case Nil then show ?case by simp
next
  case (Cons l rest)
  show ?case
  proof (cases "e = l")
    case True then show ?thesis using Cons.prems by simp
  next
    case False
    then have "right e \<le> min w (left l)" using Cons.IH[of l] Cons.prems by simp
    then show ?thesis using Cons.prems(1) by (auto simp: min_def split: if_splits)
  qed
qed

lemma advance_rev_pick:
  assumes "linked sigma2 w (u # rest)" "0 \<le> x" "x < w" "x < right u"
  shows "\<exists>e es. advance x (rev (u # rest)) = e # es \<and> pick x (u # rest) = Some e"
  using assms
proof (induction rest arbitrary: u)
  case Nil
  then show ?case by simp
next
  case (Cons l rest)
  have lk: "left l \<le> left u" "right l = min w (left u)" "linked sigma2 w (l # rest)"
    using Cons.prems(1) by auto
  show ?case
  proof (cases "left u \<le> x")
    case True
    have "\<forall>e\<in>set (l # rest). right e \<le> x"
      using linked_right_below[OF Cons.prems(1)] True by (fastforce simp: min_def split: if_splits)
    then have "advance x (rev (l # rest)) = []"
      by (intro advance_all) simp
    then have "advance x (rev (u # l # rest)) = [u]"
      using Cons.prems(4) advance_append[of x "rev (l # rest)" "[u]"] by simp
    then show ?thesis using True by simp
  next
    case False
    then have "x < right l" using lk(2) Cons.prems(3) by (simp add: min_def)
    then obtain e es where e: "advance x (rev (l # rest)) = e # es" "pick x (l # rest) = Some e"
      using Cons.IH[OF lk(3) Cons.prems(2,3)] by blast
    have "advance x (rev (u # l # rest)) = (e # es) @ [u]"
      using e(1) advance_append[of x "rev (l # rest)" "[u]"] by simp
    then show ?thesis using e(2) False by simp
  qed
qed

lemma read_out_eq:
  assumes "sorted ks"
    and "\<forall>k\<in>set ks. advance (real k) it = advance (real k) bs"
    and "\<forall>k\<in>set ks. advance (real k) bs \<noteq> []"
  shows "read_out t sigma2 ks it =
         collect (map (\<lambda>k. from_double t (entry_parabola sigma2 (hd (advance (real k) bs)) (real k))) ks)"
  using assms
proof (induction ks arbitrary: it)
  case Nil
  then show ?case by simp
next
  case (Cons k ks)
  obtain e es where adv: "advance (real k) bs = e # es"
    using Cons.prems(3) by (cases "advance (real k) bs") auto
  then have adv': "advance (real k) it = e # es" using Cons.prems(2) by simp
  have "\<forall>k'\<in>set ks. advance (real k') (e # es) = advance (real k') bs"
  proof
    fix k' assume "k' \<in> set ks"
    then have "real k \<le> real k'" using Cons.prems(1) by simp
    then show "advance (real k') (e # es) = advance (real k') bs"
      using advance_advance[of "real k" "real k'" bs] adv by simp
  qed
  then have IH: "read_out t sigma2 ks (e # es) =
         collect (map (\<lambda>k. from_double t (entry_parabola sigma2 (hd (advance (real k) bs)) (real k))) ks)"
    using Cons.IH[of "e # es"] Cons.prems by simp
  show ?case
    using adv adv' IH by (simp add: entry_parabola_def split: sum.splits)
qed

lemma pick_mem: "pick x st = Some e \<Longrightarrow> e \<in> set st"
  by (induction st) (auto split: if_splits)

lemma collect_map_Inr: "collect (map (\<lambda>x. Inr (f x)) xs) = Inr (map f xs)"
  by (induction xs) auto

lemma collect_length: "collect rs = Inr xs \<Longrightarrow> length xs = length rs"
  by (induction rs arbitrary: xs) (auto split: sum.splits)

lemma distance_parabola_envelope:
  assumes sg: "sigma \<noteq> 0" and ex: "exact_difference t" and ne: "line \<noteq> []"
  shows "distance_parabola t line sigma False =
         collect (map (\<lambda>i. from_double t (envelope_value sigma line i)) [0..<length line])"
proof -
  let ?w = "length line"
  let ?s2 = "sq sigma"
  have s2: "0 < ?s2" using sg unfolding sq_def by (cases "0 < sigma") (auto simp: zero_less_mult_iff)
  have w: "0 < ?w" using ne by simp
  obtain stack where st: "forward_pass t ?s2 line (?w - 1) = Inr stack"
    "stack_inv ?s2 line (?w - 1) stack" "lower_env ?s2 line (?w - 1) stack"
    using forward_pass_env[OF s2 ex] by blast
  from st(2) obtain u rest where ur: "stack = u # rest"
    by (cases stack) (auto simp: stack_inv_def)
  have lk: "linked ?s2 (real ?w) (u # rest)" and ru: "right u = real ?w"
    and sm: "\<forall>e\<in>set stack. is_sample line (?w - 1) e"
    using st(2) ur by (auto simp: stack_inv_def)
  have pk: "\<exists>e es. advance (real k) (rev stack) = e # es \<and> pick (real k) stack = Some e"
    if "k < ?w" for k
    unfolding ur by (rule advance_rev_pick[OF lk]) (use that ru in auto)
  have val: "entry_parabola ?s2 (hd (advance (real k) (rev stack))) (real k) = envelope_value sigma line k"
    if k: "k < ?w" for k
  proof -
    obtain e es where e: "advance (real k) (rev stack) = e # es" "pick (real k) stack = Some e"
      using pk[OF k] by blast
    have "e \<in> set stack" using pick_mem[OF e(2)] .
    then obtain c where c: "c \<le> ?w - 1" "entry_parabola ?s2 e = parabola ?s2 line c"
      using sample_parabola[of line "?w - 1" e ?s2] sm by blast
    have le: "\<forall>j\<le>?w - 1. entry_parabola ?s2 e (real k) \<le> parabola ?s2 line j (real k)"
      using st(3) e(2) unfolding lower_env_def by simp
    let ?f = "\<lambda>j. sq sigma * sq (real k - real j) + line ! j"
    have pf: "\<And>j. parabola ?s2 line j (real k) = ?f j" by (simp add: parabola_def)
    have "Min (?f ` {..<?w}) = entry_parabola ?s2 e (real k)"
    proof (rule Min_eqI)
      show "finite (?f ` {..<?w})" by simp
      show "\<And>y. y \<in> ?f ` {..<?w} \<Longrightarrow> entry_parabola ?s2 e (real k) \<le> y"
        using le pf w by auto
      have "c < ?w" using c(1) w by linarith
      then show "entry_parabola ?s2 e (real k) \<in> ?f ` {..<?w}"
        using c(2) pf by auto
    qed
    then show ?thesis using e(1) by (simp add: envelope_value_def)
  qed
  have "read_out t ?s2 [0..<?w] (rev stack) =
        collect (map (\<lambda>k. from_double t (entry_parabola ?s2 (hd (advance (real k) (rev stack))) (real k))) [0..<?w])"
  proof (rule read_out_eq)
    show "sorted [0..<?w]" by simp
    show "\<forall>k\<in>set [0..<?w]. advance (real k) (rev stack) = advance (real k) (rev stack)" by simp
    show "\<forall>k\<in>set [0..<?w]. advance (real k) (rev stack) \<noteq> []"
      using pk by fastforce
  qed
  also have "\<dots> = collect (map (\<lambda>i. from_double t (envelope_value sigma line i)) [0..<?w])"
    using val by (auto intro!: arg_cong[where f=collect])
  finally show ?thesis
    using st(1) w by (simp add: distance_parabola_def)
qed

lemma distance_parabola_floating:
  assumes "sigma \<noteq> 0"
  shows "distance_parabola Floating line sigma False =
         Inr (map (envelope_value sigma line) [0..<length line])"
proof (cases "line = []")
  case True
  then show ?thesis by (simp add: distance_parabola_def)
next
  case False
  have "exact_difference Floating" by (simp add: exact_difference_def)
  from distance_parabola_envelope[OF assms this False]
  show ?thesis by (simp add: from_double_def collect_map_Inr)
qed

section \<open>Coordinates, views and lines\<close>

lemma set_coords: "set (coords sh) = {p. list_all2 (<) p sh}"
proof (induction sh)
  case Nil
  then show ?case by auto
next
  case (Cons n ns)
  show ?case
  proof (rule set_eqI)
    fix p
    show "p \<in> set (coords (n # ns)) \<longleftrightarrow> p \<in> {p. list_all2 (<) p (n # ns)}"
      using Cons.IH by (cases p) (auto simp: list_all2_Cons2)
  qed
qed

lemma concat_map_empty: "concat (map (\<lambda>i. []) xs) = []"
  by (induction xs) auto

lemma distinct_coords: "distinct (coords sh)"
proof (induction sh)
  case Nil
  then show ?case by simp
next
  case (Cons n ns)
  show ?case
  proof (cases "coords ns = []")
    case True
    then show ?thesis by (simp add: concat_map_empty)
  next
    case False
    then obtain q qs where q: "coords ns = q # qs" by (cases "coords ns") auto
    have "distinct (concat (map (\<lambda>i. map ((#) i) (coords ns)) [0..<n]))"
    proof (rule distinct_concat)
      show "distinct (map (\<lambda>i. map ((#) i) (coords ns)) [0..<n])"
        using q by (auto simp: distinct_map inj_on_def)
      show "\<And>ys. ys \<in> set (map (\<lambda>i. map ((#) i) (coords ns)) [0..<n]) \<Longrightarrow> distinct ys"
        using Cons.IH by (auto simp: distinct_map)
      show "\<And>ys zs. ys \<in> set (map (\<lambda>i. map ((#) i) (coords ns)) [0..<n]) \<Longrightarrow>
          zs \<in> set (map (\<lambda>i. map ((#) i) (coords ns)) [0..<n]) \<Longrightarrow> ys \<noteq> zs \<Longrightarrow> set ys \<inter> set zs = {}"
        by auto
    qed
    then show ?thesis by simp
  qed
qed

lemma in_bounds_coords: "in_bounds sh p \<longleftrightarrow> p \<in> set (coords sh)"
  by (simp add: in_bounds_def set_coords)

lemma in_bounds_length: "in_bounds sh p \<Longrightarrow> length p = length sh"
  by (simp add: in_bounds_def list_all2_lengthD)

lemma in_bounds_nth: "in_bounds sh p \<Longrightarrow> i < length sh \<Longrightarrow> p ! i < sh ! i"
  by (simp add: in_bounds_def list_all2_conv_all_nth)

lemma in_bounds_iff: "in_bounds sh p \<longleftrightarrow> length p = length sh \<and> (\<forall>i<length sh. p ! i < sh ! i)"
  by (auto simp: in_bounds_def list_all2_conv_all_nth)

lemma in_bounds_update:
  "in_bounds sh p \<Longrightarrow> i < n \<Longrightarrow> d < length sh \<Longrightarrow> in_bounds (sh[d := n]) (p[d := i])"
  by (auto simp: in_bounds_iff nth_list_update)

lemma in_bounds_update_same:
  "in_bounds sh p \<Longrightarrow> i < sh ! d \<Longrightarrow> d < length sh \<Longrightarrow> in_bounds sh (p[d := i])"
  by (auto simp: in_bounds_iff nth_list_update)

lemma write_at_elems_in:
  assumes "length cs = length vals" "distinct cs" "i < length cs"
  shows "elems (write_at a cs vals) (cs ! i) = vals ! i"
  using assms by (simp add: write_at_def map_of_zip_nth)

lemma write_at_elems_out:
  assumes "length cs = length vals" "p \<notin> set cs"
  shows "elems (write_at a cs vals) p = elems a p"
proof -
  have "map_of (zip cs vals) p = None"
    using assms by (simp add: map_of_zip_is_None)
  then show ?thesis by (simp add: write_at_def)
qed

lemma write_at_shape [simp]: "shape (write_at a cs vals) = shape a"
  by (simp add: write_at_def)

lemma line_coords_length [simp]: "length (line_coords sh d b) = sh ! d"
  by (simp add: line_coords_def)

lemma line_coords_nth: "i < sh ! d \<Longrightarrow> line_coords sh d b ! i = b[d := i]"
  by (simp add: line_coords_def)

lemma line_coords_distinct: "d < length b \<Longrightarrow> distinct (line_coords sh d b)"
proof -
  assume d: "d < length b"
  have "inj_on (\<lambda>i. b[d := i]) (set [0..<sh ! d])"
  proof (rule inj_onI)
    fix i j assume "b[d := i] = b[d := j]"
    then have "b[d := i] ! d = b[d := j] ! d" by simp
    then show "i = j" using d by simp
  qed
  then show ?thesis by (simp add: line_coords_def distinct_map)
qed

lemma line_coords_mem:
  assumes "d < length b" "b ! d = 0"
  shows "p \<in> set (line_coords sh d b) \<longleftrightarrow> length p = length b \<and> p[d := 0] = b \<and> p ! d < sh ! d"
proof
  assume "p \<in> set (line_coords sh d b)"
  then obtain i where i: "i < sh ! d" "p = b[d := i]" by (auto simp: line_coords_def)
  have "b[d := 0] = b" using assms by (metis list_update_id)
  then show "length p = length b \<and> p[d := 0] = b \<and> p ! d < sh ! d"
    using i assms by simp
next
  assume a: "length p = length b \<and> p[d := 0] = b \<and> p ! d < sh ! d"
  then have "p = b[d := p ! d]" by (metis list_update_id list_update_overwrite)
  then show "p \<in> set (line_coords sh d b)" using a by (auto simp: line_coords_def)
qed

lemma read_out_length: "read_out t sigma2 ks it = Inr out \<Longrightarrow> length out = length ks"
  by (induction ks arbitrary: it out) (auto split: list.splits sum.splits)

lemma distance_parabola_length:
  "distance_parabola t line sigma invert = Inr out \<Longrightarrow> length out = length line"
  by (auto simp: distance_parabola_def Let_def split: if_splits sum.splits dest!: read_out_length)

section \<open>One pass along an axis\<close>

lemma line_coords_update: "line_coords sh d (p[d := j]) = line_coords sh d p"
  by (simp add: line_coords_def)

lemma fold_lines:
  assumes dl: "d < length sigmas" and dn: "d < length sh" and sh: "shape a = sh"
    and bs: "\<forall>b\<in>set bs. length b = length sh \<and> b ! d = 0" and dist: "distinct bs"
    and ok: "\<forall>b\<in>set bs. \<exists>vals.
               distance_parabola t (map (elems a) (line_coords sh d b)) (sigmas ! d) invert = Inr vals"
  shows "\<exists>a'. fold_result (line_pass t sigmas invert d) bs a = Inr a' \<and> shape a' = sh \<and>
           (\<forall>p. elems a' p =
              (if length p = length sh \<and> p[d := 0] \<in> set bs \<and> p ! d < sh ! d
               then projr (distance_parabola t (map (elems a) (line_coords sh d p)) (sigmas ! d) invert) ! (p ! d)
               else elems a p))"
  using sh bs dist ok
proof (induction bs arbitrary: a)
  case Nil
  then show ?case by simp
next
  case (Cons b bs)
  let ?G = "\<lambda>a b. distance_parabola t (map (elems a) (line_coords sh d b)) (sigmas ! d) invert"
  obtain vals where vals: "?G a b = Inr vals" using Cons.prems(4) by auto
  have lv: "length vals = sh ! d" using distance_parabola_length[OF vals] by simp
  have b: "length b = length sh" "b ! d = 0" using Cons.prems(2) by auto
  have db: "d < length b" using b dn by simp
  let ?a1 = "write_at a (line_coords sh d b) vals"
  have lp: "line_pass t sigmas invert d b a = Inr ?a1"
    using vals dl Cons.prems(1) by (simp add: line_pass_def)
  have a1: "elems ?a1 p = (if length p = length sh \<and> p[d := 0] = b \<and> p ! d < sh ! d
                            then vals ! (p ! d) else elems a p)" for p
  proof (cases "p \<in> set (line_coords sh d b)")
    case True
    then have m: "length p = length sh" "p[d := 0] = b" "p ! d < sh ! d"
      using line_coords_mem[OF db b(2), of p sh] b by auto
    then have "p = b[d := p ! d]" by (metis list_update_id list_update_overwrite)
    then have "line_coords sh d b ! (p ! d) = p" using m(3) by (simp add: line_coords_nth)
    moreover have "elems ?a1 (line_coords sh d b ! (p ! d)) = vals ! (p ! d)"
      by (rule write_at_elems_in) (use lv m(3) line_coords_distinct[OF db] in auto)
    ultimately show ?thesis using m by simp
  next
    case False
    then have "\<not> (length p = length sh \<and> p[d := 0] = b \<and> p ! d < sh ! d)"
      using line_coords_mem[OF db b(2), of p sh] b by auto
    moreover have "elems ?a1 p = elems a p"
      by (rule write_at_elems_out) (use lv False in auto)
    ultimately show ?thesis by auto
  qed
  have same: "map (elems ?a1) (line_coords sh d b') = map (elems a) (line_coords sh d b')"
    if b': "b' \<in> set bs" for b'
  proof -
    have b'': "length b' = length sh" "b' ! d = 0" "b' \<noteq> b"
      using Cons.prems(2,3) b' by auto
    have "elems ?a1 (b'[d := i]) = elems a (b'[d := i])" for i
    proof -
      have "(b'[d := i])[d := 0] = b'" using b'' by (metis list_update_id list_update_overwrite)
      then show ?thesis using b''(3) a1[of "b'[d := i]"] by simp
    qed
    then show ?thesis by (simp add: line_coords_def)
  qed
  have ok': "\<forall>b'\<in>set bs. \<exists>vals. ?G ?a1 b' = Inr vals"
  proof
    fix b' assume b': "b' \<in> set bs"
    then obtain vs where "?G a b' = Inr vs" using Cons.prems(4) by auto
    then show "\<exists>vals. ?G ?a1 b' = Inr vals" unfolding same[OF b'] by blast
  qed
  have "shape ?a1 = sh" using Cons.prems(1) by simp
  from Cons.IH[OF this _ _ ok'] Cons.prems(2,3)
  obtain a' where a': "fold_result (line_pass t sigmas invert d) bs ?a1 = Inr a'" "shape a' = sh"
    "\<forall>p. elems a' p =
              (if length p = length sh \<and> p[d := 0] \<in> set bs \<and> p ! d < sh ! d
               then projr (?G ?a1 p) ! (p ! d)
               else elems ?a1 p)"
    by auto
  have "elems a' p =
              (if length p = length sh \<and> p[d := 0] \<in> set (b # bs) \<and> p ! d < sh ! d
               then projr (?G a p) ! (p ! d)
               else elems a p)" for p
  proof (cases "length p = length sh \<and> p[d := 0] \<in> set bs \<and> p ! d < sh ! d")
    case True
    then have "p[d := 0] \<in> set bs" by simp
    from same[OF this]
    have "map (elems ?a1) (line_coords sh d p) = map (elems a) (line_coords sh d p)"
      unfolding line_coords_update .
    then have "?G ?a1 p = ?G a p" by (rule arg_cong)
    then show ?thesis using a'(3) True by simp
  next
    case False
    show ?thesis
    proof (cases "length p = length sh \<and> p[d := 0] = b \<and> p ! d < sh ! d")
      case True
      then have "?G a p = Inr vals"
        using vals line_coords_update[of sh d p 0] by simp
      then show ?thesis using a'(3) False a1[of p] True by simp
    next
      case nb: False
      then show ?thesis using a'(3) False a1[of p] by auto
    qed
  qed
  then show ?case using a'(1,2) lp by simp
qed

lemma distance_parabola_Nil [simp]: "distance_parabola t [] sigma invert = Inr []"
  by (simp add: distance_parabola_def)

lemma slicer_lines_bounds:
  assumes "d < length sh"
  shows "length p = length sh \<and> p[d := 0] \<in> set (slicer_lines sh d) \<and> p ! d < sh ! d \<longleftrightarrow> in_bounds sh p"
proof
  assume a: "length p = length sh \<and> p[d := 0] \<in> set (slicer_lines sh d) \<and> p ! d < sh ! d"
  then have ib: "in_bounds (sh[d := 1]) (p[d := 0])"
    by (simp add: slicer_lines_def in_bounds_coords)
  have "p ! i < sh ! i" if "i < length sh" for i
  proof (cases "i = d")
    case True then show ?thesis using a by simp
  next
    case False
    then show ?thesis using in_bounds_nth[OF ib, of i] that by simp
  qed
  then show "in_bounds sh p" using a by (simp add: in_bounds_iff)
next
  assume ib: "in_bounds sh p"
  then have "in_bounds (sh[d := 1]) (p[d := 0])" using assms by (intro in_bounds_update) auto
  then show "length p = length sh \<and> p[d := 0] \<in> set (slicer_lines sh d) \<and> p ! d < sh ! d"
    using ib assms by (simp add: slicer_lines_def in_bounds_coords in_bounds_length in_bounds_nth)
qed

lemma axis_pass_elems:
  assumes dl: "d < length sigmas" and dn: "d < length (shape a)"
    and ok: "\<forall>b. in_bounds (shape a) b \<longrightarrow> (\<exists>vals.
               distance_parabola t (map (elems a) (line_coords (shape a) d b)) (sigmas ! d) invert = Inr vals)"
  shows "\<exists>a'. axis_pass t sigmas invert d a = Inr a' \<and> shape a' = shape a \<and>
           (\<forall>p. elems a' p =
              (if in_bounds (shape a) p
               then projr (distance_parabola t (map (elems a) (line_coords (shape a) d p)) (sigmas ! d) invert) ! (p ! d)
               else elems a p))"
proof -
  let ?sh = "shape a"
  let ?bs = "slicer_lines ?sh d"
  have bs: "\<forall>b\<in>set ?bs. length b = length ?sh \<and> b ! d = 0"
  proof
    fix b assume "b \<in> set ?bs"
    then have ib: "in_bounds (?sh[d := 1]) b" by (simp add: slicer_lines_def in_bounds_coords)
    have "b ! d < ?sh[d := 1] ! d" using in_bounds_nth[OF ib, of d] dn by simp
    then show "length b = length ?sh \<and> b ! d = 0" using in_bounds_length[OF ib] dn by simp
  qed
  have dist: "distinct ?bs" by (simp add: slicer_lines_def distinct_coords)
  have ok': "\<forall>b\<in>set ?bs. \<exists>vals.
               distance_parabola t (map (elems a) (line_coords ?sh d b)) (sigmas ! d) invert = Inr vals"
  proof
    fix b assume b: "b \<in> set ?bs"
    show "\<exists>vals. distance_parabola t (map (elems a) (line_coords ?sh d b)) (sigmas ! d) invert = Inr vals"
    proof (cases "?sh ! d = 0")
      case True
      then show ?thesis by (simp add: line_coords_def)
    next
      case False
      have "b[d := 0] = b" using bs b dn by (metis list_update_id)
      then have "in_bounds ?sh b"
        using slicer_lines_bounds[OF dn, of b] bs b False by simp
      then show ?thesis using ok by blast
    qed
  qed
  from fold_lines[OF dl dn refl bs dist ok']
  obtain a' where a': "fold_result (line_pass t sigmas invert d) ?bs a = Inr a'" "shape a' = ?sh"
    "\<forall>p. elems a' p =
              (if length p = length ?sh \<and> p[d := 0] \<in> set ?bs \<and> p ! d < ?sh ! d
               then projr (distance_parabola t (map (elems a) (line_coords ?sh d p)) (sigmas ! d) invert) ! (p ! d)
               else elems a p)"
    by blast
  show ?thesis
    using a' slicer_lines_bounds[OF dn] by (simp add: axis_pass_def)
qed

section \<open>The sweep over all axes\<close>

lemma trunc_int: "x \<in> \<int> \<Longrightarrow> trunc x = x"
  by (auto simp: trunc_def elim!: Ints_cases)

lemma lowest_le_0: "lowest t \<le> 0"
  by (cases t) auto

lemma fits_storable:
  assumes "fits t M x" "is_integral t \<longrightarrow> M \<le> highest t"
  shows "from_double t x = Inr x"
proof (cases "is_integral t")
  case True
  then have x: "x \<in> \<int>" "0 \<le> x" "x \<le> highest t" using assms by (auto simp: fits_def)
  have "lowest t \<le> x" using lowest_le_0[of t] x(2) by linarith
  then show ?thesis using True x by (simp add: from_double_def trunc_int)
next
  case False
  then show ?thesis by (simp add: from_double_def)
qed

lemma sq_Ints: "x \<in> \<int> \<Longrightarrow> sq x \<in> \<int>"
  by (simp add: sq_def)

lemma sq_nonneg [simp]: "0 \<le> sq x"
  by (simp add: sq_def)

lemma envelope_value_in:
  assumes "line \<noteq> []"
  shows "\<exists>j<length line. envelope_value sigma line i = sq sigma * sq (real i - real j) + line ! j"
proof -
  let ?f = "\<lambda>j. sq sigma * sq (real i - real j) + line ! j"
  have "Min (?f ` {..<length line}) \<in> ?f ` {..<length line}"
    by (rule Min_in) (use assms in auto)
  then show ?thesis by (auto simp: envelope_value_def)
qed

lemma envelope_value_le:
  assumes "j < length line"
  shows "envelope_value sigma line i \<le> sq sigma * sq (real i - real j) + line ! j"
  unfolding envelope_value_def by (rule Min_le) (use assms in auto)

lemma envelope_fits:
  assumes ne: "i < length line" and f: "\<forall>x\<in>set line. fits t M x"
    and s: "is_integral t \<longrightarrow> sigma \<in> \<int>"
  shows "fits t M (envelope_value sigma line i)"
proof (cases "is_integral t")
  case False
  then show ?thesis by (simp add: fits_def)
next
  case True
  have ne': "line \<noteq> []" using ne by auto
  obtain j where j: "j < length line"
    "envelope_value sigma line i = sq sigma * sq (real i - real j) + line ! j"
    using envelope_value_in[OF ne'] by blast
  have lj: "line ! j \<in> \<int>" "0 \<le> line ! j" using f j(1) True by (auto simp: fits_def)
  have "sq sigma * sq (real i - real j) \<in> \<int>"
    using s True by (intro Ints_mult sq_Ints Ints_diff) auto
  then have 1: "envelope_value sigma line i \<in> \<int>" using j(2) lj by simp
  have 2: "0 \<le> envelope_value sigma line i" using j(2) lj by simp
  have "envelope_value sigma line i \<le> sq sigma * sq (real i - real i) + line ! i"
    by (rule envelope_value_le[OF ne])
  also have "\<dots> = line ! i" by (simp add: sq_def)
  also have "\<dots> \<le> M" using f ne True by (auto simp: fits_def)
  finally show ?thesis using 1 2 by (simp add: fits_def)
qed

lemma distance_parabola_fits:
  assumes sg: "sigma \<noteq> 0" and ex: "exact_difference t"
    and f: "\<forall>x\<in>set line. fits t M x" and s: "is_integral t \<longrightarrow> sigma \<in> \<int>"
    and M: "is_integral t \<longrightarrow> M \<le> highest t"
  shows "distance_parabola t line sigma False =
         Inr (map (envelope_value sigma line) [0..<length line])"
proof (cases "line = []")
  case True
  then show ?thesis by simp
next
  case False
  have "from_double t (envelope_value sigma line i) = Inr (envelope_value sigma line i)"
    if "i < length line" for i
    by (rule fits_storable[OF envelope_fits[OF that f s] M])
  then have eq: "map (\<lambda>i. from_double t (envelope_value sigma line i)) [0..<length line] =
             map (\<lambda>i. Inr (envelope_value sigma line i)) [0..<length line]"
    by simp
  show ?thesis
    by (simp only: distance_parabola_envelope[OF sg ex False] eq collect_map_Inr)
qed

lemma axis_sum_step:
  assumes "d < N" "q ! d = j"
  shows "axis_sum sigmas d N p q =
         sq (sigmas ! d) * sq (real (p ! d) - real j) + axis_sum sigmas (Suc d) N (p[d := j]) q"
proof -
  have "axis_sum sigmas d N p q = sq (sigmas ! d) * sq (real (p ! d) - real (q ! d)) +
        (\<Sum>i = Suc d..<N. sq (sigmas ! i) * sq (real (p ! i) - real (q ! i)))"
    unfolding axis_sum_def using assms(1) by (simp add: sum.atLeast_Suc_lessThan)
  also have "(\<Sum>i = Suc d..<N. sq (sigmas ! i) * sq (real (p ! i) - real (q ! i))) =
        (\<Sum>i = Suc d..<N. sq (sigmas ! i) * sq (real (p[d := j] ! i) - real (q ! i)))"
    by (rule sum.cong) auto
  finally show ?thesis using assms(2) by (simp add: axis_sum_def)
qed

lemma swept_step:
  assumes d: "d < length sh" and dl: "d < length sigmas"
    and sg: "sigmas ! d \<noteq> 0" and ex: "exact_difference t"
    and s: "is_integral t \<longrightarrow> sigmas ! d \<in> \<int>"
    and M: "is_integral t \<longrightarrow> M \<le> highest t"
    and sw: "swept t M sigmas sh a0 (Suc d) a"
  shows "\<exists>a'. axis_pass t sigmas False d a = Inr a' \<and> swept t M sigmas sh a0 d a'"
proof -
  let ?N = "length sh"
  let ?sg = "sigmas ! d"
  have sh: "shape a = sh" using sw by (simp add: swept_def)
  let ?line = "\<lambda>p. map (elems a) (line_coords sh d p)"
  have line_nth: "?line p ! j = elems a (p[d := j])" if "j < sh ! d" for p j
    using that by (simp add: line_coords_def)
  have line_len: "length (?line p) = sh ! d" for p by simp
  have line_fits: "\<forall>x\<in>set (?line p). fits t M x" if "in_bounds sh p" for p
  proof
    fix x assume "x \<in> set (?line p)"
    then obtain j where j: "j < sh ! d" "x = elems a (p[d := j])"
      by (auto simp: line_coords_def)
    have "in_bounds sh (p[d := j])" using in_bounds_update_same[OF that j(1) d] .
    then show "fits t M x" using sw j(2) by (simp add: swept_def)
  qed
  have dp: "distance_parabola t (?line p) ?sg False =
            Inr (map (envelope_value ?sg (?line p)) [0..<sh ! d])" if "in_bounds sh p" for p
    using distance_parabola_fits[OF sg ex line_fits[OF that] s M] by simp
  have ok: "\<forall>b. in_bounds (shape a) b \<longrightarrow> (\<exists>vals.
               distance_parabola t (map (elems a) (line_coords (shape a) d b)) (sigmas ! d) False = Inr vals)"
    using dp sh by auto
  from axis_pass_elems[OF dl _ ok] d sh
  obtain a' where a': "axis_pass t sigmas False d a = Inr a'" "shape a' = sh"
    "\<forall>p. elems a' p =
              (if in_bounds sh p
               then projr (distance_parabola t (?line p) ?sg False) ! (p ! d)
               else elems a p)"
    by auto
  have val: "elems a' p = envelope_value ?sg (?line p) (p ! d)" if "in_bounds sh p" for p
  proof -
    have "p ! d < sh ! d" using in_bounds_nth[OF that d] .
    then show ?thesis using a'(3) dp[OF that] that by simp
  qed
  have "fits t M (elems a' p) \<and>
         (\<forall>q. in_bounds sh q \<and> (\<forall>i<d. q ! i = p ! i) \<longrightarrow>
              elems a' p \<le> axis_sum sigmas d ?N p q + a0 q) \<and>
         (\<exists>q. in_bounds sh q \<and> (\<forall>i<d. q ! i = p ! i) \<and>
              elems a' p = axis_sum sigmas d ?N p q + a0 q)" if ib: "in_bounds sh p" for p
  proof (intro conjI allI impI)
    have pd: "p ! d < sh ! d" using in_bounds_nth[OF ib d] .
    show "fits t M (elems a' p)"
      unfolding val[OF ib] by (rule envelope_fits[OF _ line_fits[OF ib] s]) (use pd in simp)
  next
    fix q assume q: "in_bounds sh q \<and> (\<forall>i<d. q ! i = p ! i)"
    let ?j = "q ! d"
    have j: "?j < sh ! d" using in_bounds_nth[of sh q d] q d by simp
    have ibj: "in_bounds sh (p[d := ?j])" using in_bounds_update_same[OF ib j d] .
    have agree: "\<forall>i<Suc d. q ! i = p[d := ?j] ! i"
      using q d in_bounds_length[OF ib] by (auto simp: less_Suc_eq nth_list_update)
    have "elems a' p \<le> sq ?sg * sq (real (p ! d) - real ?j) + ?line p ! ?j"
      unfolding val[OF ib] by (rule envelope_value_le) (use j in simp)
    also have "?line p ! ?j = elems a (p[d := ?j])" using line_nth[OF j] .
    also have "elems a (p[d := ?j]) \<le> axis_sum sigmas (Suc d) ?N (p[d := ?j]) q + a0 q"
      using sw ibj q agree unfolding swept_def by blast
    finally show "elems a' p \<le> axis_sum sigmas d ?N p q + a0 q"
      using axis_sum_step[where d=d and N="?N" and q=q and p=p and j="?j" and sigmas=sigmas] d by simp
  next
    have ne: "?line p \<noteq> []" using in_bounds_nth[OF ib d] by (auto simp: line_coords_def)
    obtain j where j: "j < sh ! d"
      "elems a' p = sq ?sg * sq (real (p ! d) - real j) + ?line p ! j"
      using envelope_value_in[OF ne, of ?sg "p ! d"] val[OF ib] by auto
    have ibj: "in_bounds sh (p[d := j])" using in_bounds_update_same[OF ib j(1) d] .
    then obtain q where q: "in_bounds sh q" "\<forall>i<Suc d. q ! i = p[d := j] ! i"
      "elems a (p[d := j]) = axis_sum sigmas (Suc d) ?N (p[d := j]) q + a0 q"
      using sw unfolding swept_def by blast
    have qd: "q ! d = j" using q(2) d in_bounds_length[OF ib] by simp
    have ag: "\<forall>i<d. q ! i = p ! i" using q(2) by (auto simp: nth_list_update)
    have "elems a' p = axis_sum sigmas d ?N p q + a0 q"
      using j(2) line_nth[OF j(1), of p] q(3)
        axis_sum_step[where d=d and N="?N" and q=q and p=p and j=j and sigmas=sigmas] d qd by simp
    then show "\<exists>q. in_bounds sh q \<and> (\<forall>i<d. q ! i = p ! i) \<and>
              elems a' p = axis_sum sigmas d ?N p q + a0 q"
      using q(1) ag by blast
  qed
  then have "swept t M sigmas sh a0 d a'" using a'(2) by (simp add: swept_def)
  then show ?thesis using a'(1) by blast
qed

lemma swept_fold:
  assumes "d \<le> length sh" "length sh \<le> length sigmas"
    and "\<forall>i<length sh. sigmas ! i \<noteq> 0" and "exact_difference t"
    and "is_integral t \<longrightarrow> (\<forall>i<length sh. sigmas ! i \<in> \<int>)"
    and "is_integral t \<longrightarrow> M \<le> highest t"
    and "swept t M sigmas sh a0 d a"
  shows "\<exists>a'. fold_result (axis_pass t sigmas False) (rev [0..<d]) a = Inr a' \<and>
              swept t M sigmas sh a0 0 a'"
  using assms(1,7)
proof (induction d arbitrary: a)
  case 0
  then show ?case by simp
next
  case (Suc d)
  have d: "d < length sh" using Suc.prems(1) by simp
  obtain a1 where a1: "axis_pass t sigmas False d a = Inr a1" "swept t M sigmas sh a0 d a1"
    using swept_step[OF d _ _ assms(4) _ assms(6) Suc.prems(2)] assms(2,3,5) d by auto
  obtain a' where "fold_result (axis_pass t sigmas False) (rev [0..<d]) a1 = Inr a'"
    "swept t M sigmas sh a0 0 a'"
    using Suc.IH[OF _ a1(2)] d by auto
  then show ?case using a1(1) by auto
qed

lemma swept_start:
  assumes "shape a = sh" "\<forall>p. in_bounds sh p \<longrightarrow> fits t M (elems a p)"
  shows "swept t M sigmas sh (elems a) (length sh) a"
proof -
  have "q = p" if "in_bounds sh q" "in_bounds sh p" "\<forall>i<length sh. q ! i = p ! i" for p q
    using that in_bounds_length[of sh p] in_bounds_length[of sh q]
    by (simp add: list_eq_iff_nth_eq)
  then show ?thesis
    using assms by (auto simp: swept_def axis_sum_def)
qed

lemma distance_transform_impl_swept:
  assumes sh: "shape a = sh" and N: "sh \<noteq> []" and ls: "length sh \<le> length sigmas"
    and nz: "\<forall>i<length sh. sigmas ! i \<noteq> 0" and ex: "exact_difference t"
    and si: "is_integral t \<longrightarrow> (\<forall>i<length sh. sigmas ! i \<in> \<int>)"
    and M: "is_integral t \<longrightarrow> M \<le> highest t"
    and f: "\<forall>p. in_bounds sh p \<longrightarrow> fits t M (elems a p)"
  shows "\<exists>a'. distance_transform_impl t a sigmas False = Inr a' \<and>
              swept t M sigmas sh (elems a) 0 a'"
proof -
  let ?N = "length sh"
  have r: "rev [0..<?N] = (?N - 1) # rev [0..<?N - 1]"
    using N by (cases ?N) auto
  have "distance_transform_impl t a sigmas False =
        fold_result (axis_pass t sigmas False) (rev [0..<?N]) a"
    unfolding r using N sh by (auto simp: distance_transform_impl_def Let_def split: sum.splits)
  then show ?thesis
    using swept_fold[OF le_refl ls nz ex si M swept_start[OF sh f]] by simp
qed

section \<open>Seeds and the exhaustive minimum\<close>

lemma pitch_scan_eq:
  "n \<le> length pitch \<Longrightarrow>
   pitch_scan pitch sh n =
     Inr (1 + sum_list (map (\<lambda>k. sq (pitch ! k * real (sh ! k))) [0..<n]),
          list_ex (\<lambda>k. trunc (pitch ! k) \<noteq> pitch ! k) [0..<n])"
  by (induction n) auto

lemma pitch_scan_sentinel:
  "length sh \<le> length pitch \<Longrightarrow>
   pitch_scan pitch sh (length sh) = Inr (sentinel pitch sh, pitch_is_real pitch sh)"
  by (simp add: pitch_scan_eq sentinel_def pitch_is_real_def)

lemma pitch_scan_short:
  "length pitch < n \<Longrightarrow> pitch_scan pitch sh n = Inl OutOfBounds"
proof (induction n)
  case 0 then show ?case by simp
next
  case (Suc n)
  show ?case
  proof (cases "length pitch < n")
    case True then show ?thesis using Suc.IH by simp
  next
    case False
    then have "n = length pitch" using Suc.prems by simp
    then show ?thesis by (simp add: pitch_scan_eq)
  qed
qed

lemma sq_mult: "sq (a * b) = sq a * sq b"
  by (simp add: sq_def algebra_simps)

lemma axis_sum_squared_distance:
  "length p = N \<Longrightarrow> axis_sum pitch 0 N p q = squared_distance pitch p q"
  by (simp add: axis_sum_def squared_distance_def interv_sum_list_conv_sum_set_nat sq_mult)

lemma seed_elems:
  "elems (seed src background inf0) q =
     (if elems (seed src background 1) q = 0 then 0 else inf0)"
  by (simp add: seed_def)

lemma seed_shape [simp]: "shape (seed src background inf0) = shape src"
  by (simp add: seed_def)

lemma set_seed_positions:
  "set (seed_positions src background) =
     {q. in_bounds (shape src) q \<and> elems (seed src background 1) q = 0}"
  by (auto simp: seed_positions_def in_bounds_coords)

lemma sq_mono_abs: "\<bar>a\<bar> \<le> \<bar>b\<bar> \<Longrightarrow> sq a \<le> sq b"
  unfolding sq_def by (metis abs_mult_self_eq mult_mono abs_ge_zero)

lemma squared_distance_less_sentinel:
  assumes "in_bounds sh p" "in_bounds sh q"
  shows "squared_distance pitch p q < sentinel pitch sh"
proof -
  have lp: "length p = length sh" using in_bounds_length[OF assms(1)] .
  have "sq (pitch ! i * (real (p ! i) - real (q ! i))) \<le> sq (pitch ! i * real (sh ! i))"
    if "i < length sh" for i
  proof -
    have "p ! i < sh ! i" "q ! i < sh ! i"
      using in_bounds_nth[OF assms(1) that] in_bounds_nth[OF assms(2) that] by auto
    then have "\<bar>real (p ! i) - real (q ! i)\<bar> \<le> real (sh ! i)" by linarith
    then have "\<bar>pitch ! i * (real (p ! i) - real (q ! i))\<bar> \<le> \<bar>pitch ! i * real (sh ! i)\<bar>"
      by (simp add: abs_mult mult_left_mono)
    then show ?thesis by (rule sq_mono_abs)
  qed
  then have "sum_list (map (\<lambda>i. sq (pitch ! i * (real (p ! i) - real (q ! i)))) [0..<length sh])
        \<le> sum_list (map (\<lambda>k. sq (pitch ! k * real (sh ! k))) [0..<length sh])"
    by (intro sum_list_mono) auto
  then show ?thesis by (simp add: squared_distance_def sentinel_def lp)
qed

lemma swept_exhaustive_minimum:
  assumes sw: "swept t M pitch (shape src) (elems (seed src background (sentinel pitch (shape src)))) 0 a"
    and sd: "seed_positions src background \<noteq> []"
    and p: "in_bounds (shape src) p"
  shows "elems a p = exhaustive_minimum src background pitch p"
proof -
  let ?sh = "shape src"
  let ?inf = "sentinel pitch ?sh"
  let ?a0 = "elems (seed src background ?inf)"
  let ?S = "set (seed_positions src background)"
  have lp: "length p = length ?sh" using in_bounds_length[OF p] .
  have ax: "axis_sum pitch 0 (length ?sh) p q = squared_distance pitch p q" for q
    using axis_sum_squared_distance[OF lp] .
  have sw1: "\<forall>q. in_bounds ?sh q \<longrightarrow> elems a p \<le> axis_sum pitch 0 (length ?sh) p q + ?a0 q"
    and sw2: "\<exists>q. in_bounds ?sh q \<and> elems a p = axis_sum pitch 0 (length ?sh) p q + ?a0 q"
    using sw p unfolding swept_def by simp_all
  have lb: "elems a p \<le> squared_distance pitch p q + ?a0 q" if "in_bounds ?sh q" for q
    using sw1 that unfolding ax by blast
  obtain q where q: "in_bounds ?sh q" "elems a p = squared_distance pitch p q + ?a0 q"
    using sw2 unfolding ax by blast
  obtain q0 where q0: "q0 \<in> ?S" using sd by (cases "seed_positions src background") auto
  then have q0': "in_bounds ?sh q0" "?a0 q0 = 0"
    using seed_elems[of src background ?inf q0] by (auto simp: set_seed_positions)
  have "Min (squared_distance pitch p ` ?S) = elems a p"
  proof (rule Min_eqI)
    show "finite (squared_distance pitch p ` ?S)" by simp
    show "\<And>y. y \<in> squared_distance pitch p ` ?S \<Longrightarrow> elems a p \<le> y"
    proof -
      fix y assume "y \<in> squared_distance pitch p ` ?S"
      then obtain r where r: "r \<in> ?S" "y = squared_distance pitch p r" by auto
      then have "in_bounds ?sh r" "?a0 r = 0"
        using seed_elems[of src background ?inf r] by (auto simp: set_seed_positions)
      then show "elems a p \<le> y" using lb[of r] r(2) by simp
    qed
    show "elems a p \<in> squared_distance pitch p ` ?S"
    proof (cases "elems (seed src background 1) q = 0")
      case True
      then have "q \<in> ?S" "?a0 q = 0"
        using q(1) seed_elems[of src background ?inf q] by (auto simp: set_seed_positions)
      then show ?thesis using q(2) by auto
    next
      case False
      then have "?a0 q = ?inf" using seed_elems[of src background ?inf q] by simp
      moreover have "0 \<le> squared_distance pitch p q"
        by (auto simp: squared_distance_def intro!: sum_list_nonneg)
      ultimately have "?inf \<le> elems a p" using q(2) by simp
      moreover have "elems a p \<le> squared_distance pitch p q0" using lb[OF q0'(1)] q0'(2) by simp
      moreover have "squared_distance pitch p q0 < ?inf"
        by (rule squared_distance_less_sentinel[OF p q0'(1)])
      ultimately show ?thesis by simp
    qed
  qed
  then show ?thesis by (simp add: exhaustive_minimum_def)
qed

lemma array_apply_elems:
  assumes "\<forall>p. in_bounds (shape a) p \<longrightarrow> f (elems a p) = Inr (g (elems a p))"
  shows "array_apply f a =
         Inr (a\<lparr>elems := (\<lambda>p. if in_bounds (shape a) p then g (elems a p) else elems a p)\<rparr>)"
proof -
  let ?cs = "coords (shape a)"
  have "map (\<lambda>p. f (elems a p)) ?cs = map (\<lambda>p. Inr (g (elems a p))) ?cs"
    using assms by (simp add: in_bounds_coords)
  then have c: "collect (map (\<lambda>p. f (elems a p)) ?cs) = Inr (map (\<lambda>p. g (elems a p)) ?cs)"
    by (simp only: collect_map_Inr)
  have "write_at a ?cs (map (\<lambda>p. g (elems a p)) ?cs) =
        a\<lparr>elems := (\<lambda>p. if in_bounds (shape a) p then g (elems a p) else elems a p)\<rparr>"
    by (simp add: write_at_def map_of_zip_map in_bounds_coords fun_eq_iff)
  then show ?thesis using c by (simp add: array_apply_def)
qed

section \<open>The two representations of the entry point\<close>

lemma bounds_int: "is_integral t \<Longrightarrow> \<exists>L H. lowest t = of_int L \<and> highest t = of_int H \<and> L \<le> 0 \<and> 0 \<le> H"
proof (cases t)
  case Floating
  assume "is_integral t" then show ?thesis using Floating by simp
next
  case (Integral sg bits)
  have "lowest t = of_int (if sg then - (2 ^ (bits - 1)) else 0)"
    "highest t = of_int (if sg then 2 ^ (bits - 1) - 1 else 2 ^ bits - 1)"
    using Integral by auto
  moreover have "(if sg then - (2 ^ (bits - 1)) else (0::int)) \<le> 0" by simp
  moreover have "0 \<le> (if sg then 2 ^ (bits - 1) - 1 else 2 ^ bits - (1::int))" by simp
  ultimately show ?thesis by blast
qed

lemma round_half_away_int: "round_half_away x \<in> \<int>"
  by (simp add: round_half_away_def)

lemma round_half_away_bounds:
  assumes "of_int L \<le> x" "x \<le> of_int H"
  shows "of_int L \<le> round_half_away x \<and> round_half_away x \<le> of_int H"
proof (cases "0 \<le> x")
  case True
  have "L \<le> \<lfloor>x + 1 / 2\<rfloor>" using assms(1) by (simp add: le_floor_iff)
  moreover have "\<lfloor>x + 1 / 2\<rfloor> \<le> H" using assms(2) by (simp add: floor_le_iff)
  ultimately show ?thesis using True by (simp add: round_half_away_def)
next
  case False
  have "L \<le> \<lceil>x - 1 / 2\<rceil>" using assms(1) by (simp add: le_ceiling_iff)
  moreover have "\<lceil>x - 1 / 2\<rceil> \<le> H" using assms(2) by (simp add: ceiling_le_iff)
  ultimately show ?thesis using False by (simp add: round_half_away_def)
qed

lemma clamp_round_range:
  assumes "is_integral t"
  shows "clamp_round t x \<in> \<int> \<and> lowest t \<le> clamp_round t x \<and> clamp_round t x \<le> highest t"
proof -
  obtain L H where LH: "lowest t = of_int L" "highest t = of_int H" "L \<le> 0" "0 \<le> H"
    using bounds_int[OF assms] by blast
  show ?thesis
  proof (cases "x > highest t")
    case True
    then show ?thesis using LH by (simp add: clamp_round_def)
  next
    case False
    show ?thesis
    proof (cases "x < lowest t")
      case True
      then show ?thesis using LH False by (simp add: clamp_round_def)
    next
      case nl: False
      have "of_int L \<le> x" "x \<le> of_int H" using False nl LH by auto
      from round_half_away_bounds[OF this] round_half_away_int[of x]
      show ?thesis using False nl LH by (simp add: clamp_round_def)
    qed
  qed
qed

lemma clamp_round_storable:
  assumes "is_integral t"
  shows "from_double t (clamp_round t x) = Inr (clamp_round t x)"
  using clamp_round_range[OF assms, of x] assms by (simp add: from_double_def trunc_int)

lemma trunc_Ints: "trunc x \<in> \<int>"
  by (simp add: trunc_def)

lemma sum_list_Ints: "(\<And>x. x \<in> set xs \<Longrightarrow> x \<in> \<int>) \<Longrightarrow> sum_list xs \<in> (\<int> :: real set)"
  by (induction xs) auto

lemma sentinel_pos: "1 \<le> sentinel pitch sh"
  by (auto simp: sentinel_def intro!: sum_list_nonneg)

lemma array_eq: "shape a = shape b \<Longrightarrow> elems a = elems b \<Longrightarrow> (a :: 'a array_nd) = b"
  by simp

lemma distance_transform_squared_exhaustive:
  assumes N: "shape src \<noteq> []" and lp: "length (shape src) \<le> length pitch"
    and nz: "\<forall>i<length (shape src). pitch ! i \<noteq> 0"
    and sd: "seed_positions src background \<noteq> []"
    and ty: "uses_temporary t pitch (shape src) \<or> exact_difference t"
  shows "\<exists>out. distance_transform_squared t src background pitch = Inr out \<and>
           shape out = shape src \<and>
           (\<forall>p. in_bounds (shape src) p \<longrightarrow>
              elems out p =
                (if uses_temporary t pitch (shape src)
                 then clamp_round t (exhaustive_minimum src background pitch p)
                 else exhaustive_minimum src background pitch p))"
proof -
  let ?sh = "shape src"
  let ?inf = "sentinel pitch ?sh"
  let ?seed = "seed src background ?inf"
  have ps: "pitch_scan pitch ?sh (length ?sh) = Inr (?inf, pitch_is_real pitch ?sh)"
    using pitch_scan_sentinel[OF lp] .
  show ?thesis
  proof (cases "uses_temporary t pitch ?sh")
    case True
    then have it: "is_integral t" by (simp add: uses_temporary_def)
    have exF: "exact_difference Floating" by (simp add: exact_difference_def)
    obtain tmp where tmp: "distance_transform_impl Floating ?seed pitch False = Inr tmp"
      "swept Floating 0 pitch ?sh (elems ?seed) 0 tmp"
      using distance_transform_impl_swept[where t=Floating and a="?seed" and sh="?sh" and sigmas=pitch and M=0]
        N lp nz exF by (auto simp: fits_def)
    have st: "shape tmp = ?sh" using tmp(2) by (simp add: swept_def)
    let ?out = "tmp\<lparr>elems := (\<lambda>p. if in_bounds (shape tmp) p then clamp_round t (elems tmp p) else elems tmp p)\<rparr>"
    have aa: "array_apply (\<lambda>x. from_double t (clamp_round t x)) tmp = Inr ?out"
      by (rule array_apply_elems) (simp add: clamp_round_storable[OF it])
    have res: "distance_transform_squared t src background pitch = Inr ?out"
      using ps True tmp(1) aa by (simp add: distance_transform_squared_def uses_temporary_def)
    have "elems ?out p = clamp_round t (exhaustive_minimum src background pitch p)"
      if "in_bounds ?sh p" for p
      using swept_exhaustive_minimum[OF tmp(2) sd that] that st by simp
    then show ?thesis using res st True by auto
  next
    case False
    then have ex: "exact_difference t" using ty by simp
    have ni: "is_integral t \<longrightarrow> \<not> pitch_is_real pitch ?sh \<and> ?inf \<le> highest t"
      using False by (auto simp: uses_temporary_def)
    have pi: "is_integral t \<longrightarrow> (\<forall>i<length ?sh. pitch ! i \<in> \<int>)"
    proof (intro impI allI)
      fix i assume "is_integral t" "i < length ?sh"
      then have "trunc (pitch ! i) = pitch ! i"
        using ni by (auto simp: pitch_is_real_def list_ex_iff)
      then show "pitch ! i \<in> \<int>" using trunc_Ints[of "pitch ! i"] by simp
    qed
    have infZ: "is_integral t \<longrightarrow> ?inf \<in> \<int>"
    proof
      assume "is_integral t"
      then have "\<forall>i<length ?sh. pitch ! i \<in> \<int>" using pi by simp
      then have "sum_list (map (\<lambda>k. sq (pitch ! k * real (?sh ! k))) [0..<length ?sh]) \<in> \<int>"
        by (intro sum_list_Ints) (auto intro!: sq_Ints)
      then show "?inf \<in> \<int>" by (simp add: sentinel_def)
    qed
    have f: "\<forall>p. fits t ?inf (elems ?seed p)"
      using infZ sentinel_pos[of pitch ?sh] by (auto simp: fits_def seed_def)
    have M: "is_integral t \<longrightarrow> ?inf \<le> highest t" using ni by simp
    have "array_apply (from_double t) ?seed =
          Inr (?seed\<lparr>elems := (\<lambda>p. if in_bounds (shape ?seed) p then id (elems ?seed p) else elems ?seed p)\<rparr>)"
      by (rule array_apply_elems) (use fits_storable[OF _ M] f in simp)
    also have "?seed\<lparr>elems := (\<lambda>p. if in_bounds (shape ?seed) p then id (elems ?seed p) else elems ?seed p)\<rparr> = ?seed"
      by (rule array_eq) auto
    finally have aa: "array_apply (from_double t) ?seed = Inr ?seed" .
    obtain out where out: "distance_transform_impl t ?seed pitch False = Inr out"
      "swept t ?inf pitch ?sh (elems ?seed) 0 out"
      using distance_transform_impl_swept[where t=t and a="?seed" and sh="?sh" and sigmas=pitch and M="?inf"]
        N lp nz ex pi M f by auto
    have st: "shape out = ?sh" using out(2) by (simp add: swept_def)
    have nc: "\<not> (is_integral t \<and> (pitch_is_real pitch ?sh \<or> ?inf > highest t))"
      using False by (simp add: uses_temporary_def)
    have res: "distance_transform_squared t src background pitch = Inr out"
      unfolding distance_transform_squared_def ps using nc out(1) aa by auto
    have "elems out p = exhaustive_minimum src background pitch p"
      if "in_bounds ?sh p" for p
      using swept_exhaustive_minimum[OF out(2) sd that] .
    then show ?thesis using res st False by auto
  qed
qed

section \<open>The forward pass for any element type\<close>

lemma intersect_suffix:
  "intersect t sigma2 c v s below = Inr (x, st) \<Longrightarrow>
   \<exists>ys. map center (s # below) = ys @ map center st"
proof (induction below arbitrary: s)
  case Nil
  then show ?case by (auto simp: Let_def split: if_splits)
next
  case (Cons l rest)
  show ?case
  proof (cases "intersect t sigma2 c v l rest = Inr (x, st)")
    case True
    then obtain ys where "map center (l # rest) = ys @ map center st"
      using Cons.IH[of l] by blast
    then have "map center (s # l # rest) = (center s # ys) @ map center st" by simp
    then show ?thesis by blast
  next
    case False
    then have "map center st = map center (s # l # rest)"
      using Cons.prems by (auto simp: Let_def split: if_splits)
    then have "map center (s # l # rest) = [] @ map center st" by simp
    then show ?thesis by blast
  qed
qed

lemma forward_step_Inr:
  assumes "forward_step t sigma2 line k stack = Inr stack'"
  shows "\<exists>s below x st. stack = s # below \<and>
           intersect t sigma2 (real k) (line ! k) s below = Inr (x, st) \<and>
           stack' = \<lparr>left = x, center = real k, right = real (length line),
                      apex_height = line ! k\<rparr> # st"
proof (cases stack)
  case Nil
  then show ?thesis using assms by (simp add: forward_step_def)
next
  case (Cons s below)
  show ?thesis
  proof (cases "intersect t sigma2 (real k) (line ! k) s below")
    case (Inl e)
    then show ?thesis using assms Cons by (simp add: forward_step_def)
  next
    case (Inr r)
    obtain x st where r: "r = (x, st)" by (cases r)
    show ?thesis using assms Cons Inr r by (simp add: forward_step_def)
  qed
qed

lemma forward_step_samples:
  assumes "forward_step t sigma2 line (Suc n) stack = Inr stack'"
    and "\<forall>e\<in>set stack. is_sample line n e"
  shows "stack' \<noteq> [] \<and> (\<forall>e\<in>set stack'. is_sample line (Suc n) e)"
proof -
  obtain s below x st where st: "stack = s # below"
    "intersect t sigma2 (real (Suc n)) (line ! Suc n) s below = Inr (x, st)"
    "stack' = \<lparr>left = x, center = real (Suc n), right = real (length line),
               apex_height = line ! Suc n\<rparr> # st"
    using forward_step_Inr[OF assms(1)] by (elim exE conjE)
  have old: "is_sample line (Suc n) e" if "e \<in> set st" for e
  proof -
    have "\<exists>e'\<in>set (s # below). center e = center e' \<and> apex_height e = apex_height e'"
      using intersect_subset[OF st(2)] that by (rule bspec)
    then obtain e' where e': "e' \<in> set (s # below)" "center e = center e'" "apex_height e = apex_height e'"
      by (elim bexE conjE)
    then have "e' \<in> set stack" unfolding st(1) by simp
    then have "is_sample line n e'" using assms(2) by simp
    then obtain c where "c \<le> n" "center e' = real c" "apex_height e' = line ! c"
      unfolding is_sample_def by blast
    then have "c \<le> Suc n \<and> center e = real c \<and> apex_height e = line ! c"
      using e' by simp
    then show ?thesis unfolding is_sample_def by blast
  qed
  have new: "is_sample line (Suc n) \<lparr>left = x, center = real (Suc n), right = real (length line),
               apex_height = line ! Suc n\<rparr>"
    unfolding is_sample_def by (intro exI[of _ "Suc n"]) simp
  have "\<forall>e\<in>set stack'. is_sample line (Suc n) e"
  proof
    fix e assume "e \<in> set stack'"
    then have "e = \<lparr>left = x, center = real (Suc n), right = real (length line),
               apex_height = line ! Suc n\<rparr> \<or> e \<in> set st"
      unfolding st(3) by simp
    then show "is_sample line (Suc n) e" using old new by (elim disjE) simp_all
  qed
  moreover have "stack' \<noteq> []" unfolding st(3) by simp
  ultimately show ?thesis by simp
qed

lemma forward_pass_samples:
  "forward_pass t sigma2 line n = Inr stack \<Longrightarrow>
   stack \<noteq> [] \<and> (\<forall>e\<in>set stack. is_sample line n e)"
proof (induction n arbitrary: stack)
  case 0
  then show ?case by (auto simp: is_sample_def)
next
  case (Suc n)
  then obtain st0 where st0: "forward_pass t sigma2 line n = Inr st0"
    "forward_step t sigma2 line (Suc n) st0 = Inr stack"
    by (cases "forward_pass t sigma2 line n") simp_all
  show ?case using forward_step_samples[OF st0(2)] Suc.IH[OF st0(1)] by simp
qed

lemma forward_pass_centers:
  assumes "sigma2 \<noteq> 0"
  shows "\<exists>stack. forward_pass t sigma2 line n = Inr stack \<and>
           sorted_wrt (>) (map center stack) \<and>
           (\<forall>e\<in>set stack. center e \<le> real n)"
proof (induction n)
  case 0
  then show ?case by simp
next
  case (Suc n)
  then obtain stack where stack: "forward_pass t sigma2 line n = Inr stack"
    "sorted_wrt (>) (map center stack)" "\<forall>e\<in>set stack. center e \<le> real n"
    by blast
  have sm: "stack \<noteq> []" using forward_pass_samples[OF stack(1)] by simp
  then obtain s below where sb: "stack = s # below" by (cases stack) auto
  have cs: "\<forall>e\<in>set (s # below). center e < real (Suc n)"
  proof
    fix e assume "e \<in> set (s # below)"
    then have "e \<in> set stack" using sb by simp
    then have "center e \<le> real n" using stack(3) by blast
    then show "center e < real (Suc n)" by simp
  qed
  obtain x st where isx: "intersect t sigma2 (real (Suc n)) (line ! Suc n) s below = Inr (x, st)"
    using intersect_total[OF assms cs] by blast
  let ?new = "\<lparr>left = x, center = real (Suc n), right = real (length line),
               apex_height = line ! Suc n\<rparr>"
  have fs: "forward_pass t sigma2 line (Suc n) = Inr (?new # st)"
    using stack(1) sb isx by (simp add: forward_step_def)
  obtain ys where ys: "map center (s # below) = ys @ map center st"
    using intersect_suffix[OF isx] by blast
  have "sorted_wrt (>) (ys @ map center st)"
    using stack(2) unfolding sb ys .
  then have 1: "sorted_wrt (>) (map center st)"
    by (simp add: sorted_wrt_append)
  have "set (map center st) \<subseteq> set (ys @ map center st)" by simp
  then have sub: "set (map center st) \<subseteq> set (map center (s # below))" unfolding ys .
  have 2: "\<forall>e\<in>set st. center e < real (Suc n)"
  proof
    fix e assume "e \<in> set st"
    then have "center e \<in> set (map center (s # below))" using sub by auto
    then obtain e' where "e' \<in> set (s # below)" "center e = center e'" by auto
    then show "center e < real (Suc n)" using cs by metis
  qed
  have 3: "sorted_wrt (>) (map center (?new # st))" using 1 2 by simp
  have 4: "\<forall>e\<in>set (?new # st). center e \<le> real (Suc n)"
  proof
    fix e assume "e \<in> set (?new # st)"
    then have "e = ?new \<or> e \<in> set st" by simp
    then show "center e \<le> real (Suc n)"
    proof
      assume "e = ?new" then show ?thesis by simp
    next
      assume "e \<in> set st"
      then have "center e < real (Suc n)" using 2 by blast
      then show ?thesis by simp
    qed
  qed
  show ?case by (intro exI[of _ "?new # st"] conjI fs 3 4)
qed

lemma forward_pass_no_zero_divisor:
  assumes "sigma2 \<noteq> 0"
  shows "forward_pass t sigma2 line n \<noteq> Inl ZeroDivisor"
proof -
  obtain stack where "forward_pass t sigma2 line n = Inr stack"
    using forward_pass_centers[OF assms, of t line n] by blast
  then show ?thesis by simp
qed

section \<open>The values of a result\<close>

lemma trunc_nonneg: "0 \<le> x \<Longrightarrow> 0 \<le> trunc x"
  by (simp add: trunc_def)

lemma from_double_good:
  assumes "from_double t x = Inr y" "0 \<le> x"
  shows "good t y"
proof (cases "is_integral t")
  case True
  then have "y = trunc x" "lowest t \<le> trunc x" "trunc x \<le> highest t"
    using assms(1) by (auto simp: from_double_def split: if_splits)
  then show ?thesis using trunc_nonneg[OF assms(2)] by (simp add: good_def)
next
  case False
  then show ?thesis using assms by (simp add: from_double_def good_def)
qed

lemma advance_subset: "set (advance x bs) \<subseteq> set bs"
  by (induction bs) auto

lemma read_out_values:
  "read_out t sigma2 ks it = Inr out \<Longrightarrow> y \<in> set out \<Longrightarrow>
   \<exists>e\<in>set it. \<exists>k. from_double t (sigma2 * sq (real k - center e) + apex_height e) = Inr y"
proof (induction ks arbitrary: it out)
  case Nil
  then show ?case by simp
next
  case (Cons k ks)
  show ?case
  proof (cases "advance (real k) it")
    case Nil
    then show ?thesis using Cons.prems(1) by simp
  next
    case c: (Cons e es)
    have sub: "set (e # es) \<subseteq> set it" using advance_subset[of "real k" it] c by simp
    show ?thesis
    proof (cases "from_double t (sigma2 * sq (real k - center e) + apex_height e)")
      case (Inl f)
      then show ?thesis using Cons.prems(1) c by simp
    next
      case x: (Inr x)
      show ?thesis
      proof (cases "read_out t sigma2 ks (e # es)")
        case (Inl f)
        then show ?thesis using Cons.prems(1) c x by simp
      next
        case (Inr out')
        then have out: "out = x # out'" using Cons.prems(1) c x by simp
        show ?thesis
        proof (cases "y = x")
          case True
          have "e \<in> set it" using sub by simp
          then show ?thesis using x True by blast
        next
          case False
          then have "y \<in> set out'" using Cons.prems(2) out by simp
          from Cons.IH[OF Inr this]
          obtain e' k' where "e' \<in> set (e # es)"
            "from_double t (sigma2 * sq (real k' - center e') + apex_height e') = Inr y"
            by blast
          then show ?thesis using sub by blast
        qed
      qed
    qed
  qed
qed

lemma distance_parabola_good:
  assumes dp: "distance_parabola t line sigma False = Inr out"
    and ln: "\<forall>x\<in>set line. good t x"
  shows "\<forall>y\<in>set out. good t y"
proof (cases "line = []")
  case True
  then show ?thesis using dp by simp
next
  case False
  let ?w = "length line"
  have w: "0 < ?w" using False by simp
  obtain stack where st: "forward_pass t (sq sigma) line (?w - 1) = Inr stack"
    and ro: "read_out t (sq sigma) [0..<?w] (rev stack) = Inr out"
    using dp w by (cases "forward_pass t (sq sigma) line (?w - 1)")
      (simp_all add: distance_parabola_def)
  have sm: "\<forall>e\<in>set stack. is_sample line (?w - 1) e"
    using forward_pass_samples[OF st] by simp
  show ?thesis
  proof
    fix y assume "y \<in> set out"
    from read_out_values[OF ro this]
    obtain e k where e: "e \<in> set stack"
      "from_double t (sq sigma * sq (real k - center e) + apex_height e) = Inr y"
      by auto
    obtain c where c: "c \<le> ?w - 1" "apex_height e = line ! c"
      using sm e(1) unfolding is_sample_def by blast
    have "c < ?w" using c(1) w by linarith
    then have "line ! c \<in> set line" by simp
    then have "0 \<le> apex_height e" using ln c(2) by (simp add: good_def)
    then have "0 \<le> sq sigma * sq (real k - center e) + apex_height e" by simp
    then show "good t y" using from_double_good[OF e(2)] by simp
  qed
qed

lemma write_at_pred:
  assumes "\<forall>v\<in>set vals. P v" "\<forall>p. P (elems a p)"
  shows "P (elems (write_at a cs vals) p)"
proof (cases "map_of (zip cs vals) p")
  case None
  then show ?thesis using assms(2) by (simp add: write_at_def)
next
  case (Some v)
  then have "(p, v) \<in> set (zip cs vals)" by (rule map_of_SomeD)
  then have "v \<in> set vals" by (rule set_zip_rightD)
  then show ?thesis using Some assms(1) by (simp add: write_at_def)
qed

lemma line_pass_good:
  assumes "line_pass t sigmas False d b a = Inr a'" "\<forall>p. good t (elems a p)"
  shows "\<forall>p. good t (elems a' p)"
proof -
  let ?line = "map (elems a) (line_coords (shape a) d b)"
  have dl: "d < length sigmas"
  proof (rule ccontr)
    assume "\<not> d < length sigmas"
    then have "line_pass t sigmas False d b a = Inl OutOfBounds" by (simp add: line_pass_def)
    then show False using assms(1) by simp
  qed
  then have lp: "line_pass t sigmas False d b a =
    (case distance_parabola t ?line (sigmas ! d) False of
       Inl e \<Rightarrow> Inl e
     | Inr vals \<Rightarrow> Inr (write_at a (line_coords (shape a) d b) vals))"
    by (simp add: line_pass_def)
  obtain vals where vals: "distance_parabola t ?line (sigmas ! d) False = Inr vals"
    and a': "a' = write_at a (line_coords (shape a) d b) vals"
    using assms(1) unfolding lp
    by (cases "distance_parabola t ?line (sigmas ! d) False") simp_all
  have "\<forall>x\<in>set ?line. good t x" using assms(2) by simp
  then have v: "\<forall>v\<in>set vals. good t v" by (rule distance_parabola_good[OF vals])
  show ?thesis
  proof
    fix p
    show "good t (elems a' p)" unfolding a' by (rule write_at_pred[OF v assms(2)])
  qed
qed

lemma fold_result_invariant:
  assumes "\<And>x a a'. f x a = Inr a' \<Longrightarrow> I a \<Longrightarrow> I a'"
  shows "I a \<Longrightarrow> fold_result f xs a = Inr a' \<Longrightarrow> I a'"
proof (induction xs arbitrary: a)
  case Nil
  then show ?case by simp
next
  case (Cons x xs)
  then obtain a1 where a1: "f x a = Inr a1" "fold_result f xs a1 = Inr a'"
    by (cases "f x a") simp_all
  have "I a1" using assms[OF a1(1) Cons.prems(1)] .
  then show ?case using Cons.IH a1(2) by simp
qed

lemma axis_pass_good:
  assumes "axis_pass t sigmas False d a = Inr a'" "\<forall>p. good t (elems a p)"
  shows "\<forall>p. good t (elems a' p)"
proof -
  have "(\<forall>p. good t (elems a p)) \<Longrightarrow>
        fold_result (line_pass t sigmas False d) (slicer_lines (shape a) d) a = Inr a' \<Longrightarrow>
        (\<forall>p. good t (elems a' p))"
    by (rule fold_result_invariant[where I="\<lambda>a. \<forall>p. good t (elems a p)"]) (rule line_pass_good)
  then show ?thesis using assms unfolding axis_pass_def by simp
qed

lemma distance_transform_impl_good:
  assumes "distance_transform_impl t a sigmas False = Inr a'" "\<forall>p. good t (elems a p)"
  shows "\<forall>p. good t (elems a' p)"
proof -
  let ?N = "length (shape a)"
  have N: "?N \<noteq> 0" using assms(1) by (auto simp: distance_transform_impl_def)
  obtain a1 where a1: "axis_pass t sigmas False (?N - 1) a = Inr a1"
    "fold_result (axis_pass t sigmas False) (rev [0..<?N - 1]) a1 = Inr a'"
    using assms(1) N by (cases "axis_pass t sigmas False (?N - 1) a")
      (simp_all add: distance_transform_impl_def Let_def)
  have g1: "\<forall>p. good t (elems a1 p)" using axis_pass_good[OF a1(1) assms(2)] .
  have "(\<forall>p. good t (elems a1 p)) \<Longrightarrow>
        fold_result (axis_pass t sigmas False) (rev [0..<?N - 1]) a1 = Inr a' \<Longrightarrow>
        (\<forall>p. good t (elems a' p))"
    by (rule fold_result_invariant[where I="\<lambda>a. \<forall>p. good t (elems a p)"]) (rule axis_pass_good)
  then show ?thesis using g1 a1(2) by simp
qed

lemma collect_Inr_nth:
  "collect rs = Inr xs \<Longrightarrow> length xs = length rs \<and> (\<forall>i<length rs. rs ! i = Inr (xs ! i))"
proof (induction rs arbitrary: xs)
  case Nil
  then show ?case by simp
next
  case (Cons r rs)
  then obtain x xs' where x: "r = Inr x" "collect rs = Inr xs'" "xs = x # xs'"
    by (cases r; cases "collect rs") simp_all
  show ?case using Cons.IH[OF x(2)] x by (auto simp: nth_Cons')
qed

lemma array_apply_Inr:
  assumes "array_apply f a = Inr a'"
  shows "shape a' = shape a"
    and "in_bounds (shape a) p \<Longrightarrow> f (elems a p) = Inr (elems a' p)"
    and "\<not> in_bounds (shape a) p \<Longrightarrow> elems a' p = elems a p"
proof -
  let ?cs = "coords (shape a)"
  obtain vals where vals: "collect (map (\<lambda>p. f (elems a p)) ?cs) = Inr vals"
    and a': "a' = write_at a ?cs vals"
    using assms by (cases "collect (map (\<lambda>p. f (elems a p)) ?cs)") (simp_all add: array_apply_def)
  have lv: "length vals = length ?cs"
    and nth: "\<forall>i<length ?cs. f (elems a (?cs ! i)) = Inr (vals ! i)"
    using collect_Inr_nth[OF vals] by auto
  show "shape a' = shape a" using a' by simp
  show "f (elems a p) = Inr (elems a' p)" if "in_bounds (shape a) p"
  proof -
    have "p \<in> set ?cs" using that by (simp add: in_bounds_coords)
    then obtain i where i: "i < length ?cs" "?cs ! i = p" by (auto simp: in_set_conv_nth)
    have "elems a' (?cs ! i) = vals ! i"
      unfolding a' by (rule write_at_elems_in) (use lv i distinct_coords in auto)
    then show ?thesis using nth i by auto
  qed
  show "elems a' p = elems a p" if "\<not> in_bounds (shape a) p"
    unfolding a' by (rule write_at_elems_out) (use lv that in \<open>auto simp: in_bounds_coords\<close>)
qed

lemma pitch_scan_ge1: "pitch_scan pitch sh n = Inr (inf0, r) \<Longrightarrow> 1 \<le> inf0"
proof (induction n arbitrary: inf0 r)
  case 0
  then show ?case by simp
next
  case (Suc n)
  then obtain i0 r0 where p: "pitch_scan pitch sh n = Inr (i0, r0)"
    "inf0 = i0 + sq (pitch ! n * real (sh ! n))"
    by (cases "pitch_scan pitch sh n") (auto split: if_splits)
  have "1 \<le> i0" using Suc.IH[OF p(1)] .
  then show ?case using p(2) sq_nonneg[of "pitch ! n * real (sh ! n)"] by linarith
qed

lemma clamp_round_nonneg:
  assumes "is_integral t" "0 \<le> x"
  shows "0 \<le> clamp_round t x"
proof -
  obtain L H where LH: "lowest t = of_int L" "highest t = of_int H" "L \<le> 0" "0 \<le> H"
    using bounds_int[OF assms(1)] by blast
  have "0 \<le> round_half_away x" using assms(2) by (simp add: round_half_away_def)
  then show ?thesis using LH assms(2) by (simp add: clamp_round_def)
qed

lemma distance_transform_squared_good:
  assumes "distance_transform_squared t src background pitch = Inr a"
    and "in_bounds (shape a) p"
  shows "good t (elems a p)"
proof -
  obtain inf0 r where ps: "pitch_scan pitch (shape src) (length (shape src)) = Inr (inf0, r)"
    using assms(1)
    by (cases "pitch_scan pitch (shape src) (length (shape src))")
       (auto simp: distance_transform_squared_def)
  have i1: "1 \<le> inf0" using pitch_scan_ge1[OF ps] .
  let ?seed = "seed src background inf0"
  have s0: "\<forall>p. 0 \<le> elems ?seed p" using i1 by (simp add: seed_def)
  show ?thesis
  proof (cases "is_integral t \<and> (r \<or> inf0 > highest t)")
    case True
    then have it: "is_integral t" by simp
    obtain tmp where tmp: "distance_transform_impl Floating ?seed pitch False = Inr tmp"
      and a: "array_apply (\<lambda>x. from_double t (clamp_round t x)) tmp = Inr a"
      using assms(1) ps True
      by (cases "distance_transform_impl Floating ?seed pitch False")
         (simp_all add: distance_transform_squared_def)
    have "\<forall>p. good Floating (elems ?seed p)" using s0 by (simp add: good_def)
    then have t0: "0 \<le> elems tmp p" using distance_transform_impl_good[OF tmp] by (simp add: good_def)
    have ib: "in_bounds (shape tmp) p" using assms(2) array_apply_Inr(1)[OF a] by simp
    have "from_double t (clamp_round t (elems tmp p)) = Inr (elems a p)"
      using array_apply_Inr(2)[OF a ib] .
    then have "elems a p = clamp_round t (elems tmp p)"
      using clamp_round_storable[OF it, of "elems tmp p"] by simp
    then show ?thesis
      using clamp_round_range[OF it, of "elems tmp p"] clamp_round_nonneg[OF it t0]
      by (simp add: good_def)
  next
    case False
    obtain out0 where out0: "array_apply (from_double t) ?seed = Inr out0"
      and a: "distance_transform_impl t out0 pitch False = Inr a"
      using assms(1) ps False
      by (cases "array_apply (from_double t) ?seed")
         (auto simp: distance_transform_squared_def)
    have "good t (elems out0 q)" for q
    proof (cases "in_bounds (shape ?seed) q")
      case True
      have "from_double t (elems ?seed q) = Inr (elems out0 q)"
        using array_apply_Inr(2)[OF out0 True] .
      then show ?thesis using from_double_good s0 by blast
    next
      case nb: False
      have e: "elems out0 q = elems ?seed q" using array_apply_Inr(3)[OF out0 nb] .
      have "is_integral t \<longrightarrow> inf0 \<le> highest t" using False by auto
      moreover have "is_integral t \<longrightarrow> 0 \<le> highest t" using bounds_int[of t] by auto
      ultimately show ?thesis
        using e i1 lowest_le_0[of t] by (auto simp: good_def seed_def)
    qed
    then show ?thesis using distance_transform_impl_good[OF a] by blast
  qed
qed

lemma sqrt_elem_good:
  assumes "good t x"
  shows "sqrt_elem t x = Inr (if is_integral t then trunc (sqrt x) else sqrt x)"
proof (cases "is_integral t")
  case False
  then show ?thesis using assms by (simp add: sqrt_elem_def from_double_def good_def)
next
  case True
  obtain L H where LH: "lowest t = of_int L" "highest t = of_int H" "L \<le> 0" "0 \<le> H"
    using bounds_int[OF True] by blast
  have x: "0 \<le> x" "x \<le> of_int H" using assms True LH by (auto simp: good_def)
  have s0: "0 \<le> sqrt x" using x by simp
  have "x < (of_int H + 1)\<^sup>2"
  proof -
    have "(of_int H + 1 :: real) \<le> (of_int H + 1)\<^sup>2"
      using LH(4) by (simp add: power2_eq_square mult_le_cancel_left1 algebra_simps)
    then show ?thesis using x(2) by linarith
  qed
  then have "sqrt x < of_int H + 1" using LH(4) by (intro real_less_lsqrt) auto
  then have 1: "\<lfloor>sqrt x\<rfloor> \<le> H" by (simp add: floor_le_iff)
  have "0 \<le> \<lfloor>sqrt x\<rfloor>" using s0 by simp
  then have 2: "L \<le> \<lfloor>sqrt x\<rfloor>" using LH(3) by linarith
  have tr: "trunc (sqrt x) = of_int \<lfloor>sqrt x\<rfloor>" using s0 by (simp add: trunc_def)
  have "lowest t \<le> trunc (sqrt x) \<and> trunc (sqrt x) \<le> highest t"
    unfolding tr LH(1,2) using 1 2 by (simp only: of_int_le_iff)
  then show ?thesis using True x by (simp add: sqrt_elem_def from_double_def)
qed

section \<open>The pitch enters by its square\<close>

lemma sq_abs [simp]: "sq \<bar>x\<bar> = sq x"
  by (simp add: sq_def)

lemma distance_parabola_abs:
  "distance_parabola t line \<bar>sigma\<bar> invert = distance_parabola t line sigma invert"
  unfolding distance_parabola_def sq_abs by (rule refl)

lemma trunc_minus: "trunc (- x) = - trunc x"
  by (auto simp: trunc_def ceiling_def)

lemma trunc_abs_iff: "trunc \<bar>x\<bar> = \<bar>x\<bar> \<longleftrightarrow> trunc x = x"
proof (cases "0 \<le> x")
  case True
  then show ?thesis by simp
next
  case False
  then have "\<bar>x\<bar> = - x" by simp
  then show ?thesis by (simp add: trunc_minus)
qed

lemma fold_result_cong:
  "(\<And>x. x \<in> set xs \<Longrightarrow> f x = g x) \<Longrightarrow> fold_result f xs a = fold_result g xs a"
proof (induction xs arbitrary: a)
  case Nil
  then show ?case by simp
next
  case (Cons x xs)
  have "f x = g x" using Cons.prems by simp
  moreover have "fold_result f xs b = fold_result g xs b" for b
    using Cons.IH Cons.prems by simp
  ultimately show ?case by (simp split: sum.splits)
qed

lemma line_pass_cong:
  assumes "d < length s1" "d < length s2" "\<bar>s1 ! d\<bar> = \<bar>s2 ! d\<bar>"
  shows "line_pass t s1 invert d = line_pass t s2 invert d"
proof (intro ext)
  fix b a
  have "distance_parabola t xs (s1 ! d) invert = distance_parabola t xs (s2 ! d) invert" for xs
    using distance_parabola_abs[of t xs "s1 ! d" invert] distance_parabola_abs[of t xs "s2 ! d" invert]
      assms(3) by simp
  then show "line_pass t s1 invert d b a = line_pass t s2 invert d b a"
    using assms(1,2) by (simp add: line_pass_def)
qed

lemma axis_pass_cong:
  assumes "d < length s1" "d < length s2" "\<bar>s1 ! d\<bar> = \<bar>s2 ! d\<bar>"
  shows "axis_pass t s1 invert d = axis_pass t s2 invert d"
  by (intro ext) (simp add: axis_pass_def line_pass_cong[OF assms])

lemma distance_transform_impl_cong:
  assumes "length (shape a) \<le> length s1" "length (shape a) \<le> length s2"
    and "\<forall>d<length (shape a). \<bar>s1 ! d\<bar> = \<bar>s2 ! d\<bar>"
  shows "distance_transform_impl t a s1 invert = distance_transform_impl t a s2 invert"
proof (cases "length (shape a) = 0")
  case True
  then show ?thesis by (simp add: distance_transform_impl_def)
next
  case False
  let ?N = "length (shape a)"
  have ap: "axis_pass t s1 invert d = axis_pass t s2 invert d" if "d < ?N" for d
    by (rule axis_pass_cong) (use that assms in auto)
  have 1: "axis_pass t s1 invert (?N - 1) = axis_pass t s2 invert (?N - 1)"
    using ap[of "?N - 1"] False by simp
  have 2: "fold_result (axis_pass t s1 invert) (rev [0..<?N - 1]) b =
           fold_result (axis_pass t s2 invert) (rev [0..<?N - 1]) b" for b
    by (rule fold_result_cong) (use ap in auto)
  show ?thesis
    unfolding distance_transform_impl_def Let_def 1 using 2 by (simp split: sum.splits)
qed

lemma pitch_scan_abs:
  assumes "n \<le> N"
  shows "pitch_scan (map abs (take N pitch)) sh n = pitch_scan pitch sh n"
proof (cases "n \<le> length pitch")
  case True
  let ?p' = "map abs (take N pitch)"
  have l: "n \<le> length ?p'" using True assms by simp
  have nth: "?p' ! k = \<bar>pitch ! k\<bar>" if "k < n" for k
    using that True assms by simp
  have 1: "map (\<lambda>k. sq (?p' ! k * real (sh ! k))) [0..<n] =
           map (\<lambda>k. sq (pitch ! k * real (sh ! k))) [0..<n]"
    using nth by (simp add: sq_mult)
  have 2: "list_ex (\<lambda>k. trunc (?p' ! k) \<noteq> ?p' ! k) [0..<n] =
           list_ex (\<lambda>k. trunc (pitch ! k) \<noteq> pitch ! k) [0..<n]"
    using nth by (simp add: list_ex_iff trunc_abs_iff)
  show ?thesis unfolding pitch_scan_eq[OF l] pitch_scan_eq[OF True] 1 2 ..
next
  case False
  then have "length pitch < n" by simp
  moreover have "length (map abs (take N pitch)) < n" using False assms by simp
  ultimately show ?thesis by (simp add: pitch_scan_short)
qed

lemma pitch_scan_Inr_length:
  "pitch_scan pitch sh n = Inr r \<Longrightarrow> n \<le> length pitch"
  using pitch_scan_short[of pitch n sh] by (cases "n \<le> length pitch") auto

lemma distance_transform_squared_abs:
  "distance_transform_squared t src background (map abs (take (length (shape src)) pitch)) =
   distance_transform_squared t src background pitch"
proof -
  let ?N = "length (shape src)"
  let ?p' = "map abs (take ?N pitch)"
  have ps: "pitch_scan ?p' (shape src) ?N = pitch_scan pitch (shape src) ?N"
    by (rule pitch_scan_abs) simp
  show ?thesis
  proof (cases "pitch_scan pitch (shape src) ?N")
    case (Inl e)
    then show ?thesis using ps by (simp add: distance_transform_squared_def)
  next
    case (Inr r)
    have l: "?N \<le> length pitch" using pitch_scan_Inr_length[OF Inr] .
    then have l': "?N \<le> length ?p'" by simp
    have nth: "\<forall>d<?N. \<bar>?p' ! d\<bar> = \<bar>pitch ! d\<bar>" using l by simp
    have impl: "distance_transform_impl u a ?p' False = distance_transform_impl u a pitch False"
      if "shape a = shape src" for u a
      by (rule distance_transform_impl_cong) (use that l l' nth in auto)
    obtain inf0 pir where r: "r = (inf0, pir)" by (cases r)
    have 1: "distance_transform_impl Floating (seed src background inf0) ?p' False =
             distance_transform_impl Floating (seed src background inf0) pitch False"
      by (rule impl) simp
    have 2: "(case array_apply (from_double t) (seed src background inf0) of
                Inl e \<Rightarrow> Inl e
              | Inr out \<Rightarrow> distance_transform_impl t out ?p' False) =
             (case array_apply (from_double t) (seed src background inf0) of
                Inl e \<Rightarrow> Inl e
              | Inr out \<Rightarrow> distance_transform_impl t out pitch False)"
    proof (cases "array_apply (from_double t) (seed src background inf0)")
      case (Inl e)
      then show ?thesis by simp
    next
      case o: (Inr out)
      have "shape out = shape src" using array_apply_Inr(1)[OF o] by simp
      then show ?thesis using o impl by simp
    qed
    show ?thesis
      unfolding distance_transform_squared_def ps Inr r by (auto simp: 1 2)
  qed
qed

lemma distance_transform_abs:
  "distance_transform t src background (map abs (take (length (shape src)) pitch)) =
   distance_transform t src background pitch"
  by (simp add: distance_transform_def distance_transform_squared_abs)

section \<open>The claims\<close>

lemma sqrt_values: "sqrt 4 = 2" "sqrt 9 = 3" "sqrt 16 = 4"
  by (rule real_sqrt_unique, simp, simp)+

text \<open>
  C5. On the line \<open>[0, inf, inf, inf, inf]\<close> with \<open>sigma = 1\<close> and \<open>invert = false\<close>,
  \<open>distance_parabola\<close> produces \<open>[0, 1, 4, 9, 16]\<close>, for every sentinel \<open>inf\<close> of at
  least 16 (the entry point uses \<open>inf = 26\<close> for such a line); the elementwise square
  root of that line is \<open>[0, 1, 2, 3, 4]\<close>.
\<close>

theorem distance_parabola_exact_line:
  assumes "16 \<le> inf0"
  shows "distance_parabola Floating [0, inf0, inf0, inf0, inf0] 1 False = Inr [0, 1, 4, 9, 16] \<and>
         collect (map (sqrt_elem Floating) [0, 1, 4, 9, 16]) = Inr [0, 1, 2, 3, 4]"
proof
  let ?line = "[0, inf0, inf0, inf0, inf0]"
  have "distance_parabola Floating ?line 1 False = Inr (map (envelope_value 1 ?line) [0..<length ?line])"
    by (rule distance_parabola_floating) simp
  moreover have "map (envelope_value 1 ?line) [0..<length ?line] = [0, 1, 4, 9, 16]"
    using assms
    by (simp add: envelope_value_def sq_def upt_rec lessThan_Suc numeral_eq_Suc min_def)
  ultimately show "distance_parabola Floating ?line 1 False = Inr [0, 1, 4, 9, 16]" by simp
  show "collect (map (sqrt_elem Floating) [0, 1, 4, 9, 16]) = Inr [0, 1, 2, 3, 4]"
    by (simp add: sqrt_elem_def from_double_def sqrt_values)
qed

theorem distance_parabola_exact_line_witness:
  "(16::real) \<le> 26 \<and> distance_parabola Floating [0, 26, 26, 26, 26] 1 False = Inr [0, 1, 4, 9, 16] \<and>
   collect (map (sqrt_elem Floating) [0, 1, 4, 9, 16]) = Inr [0, 1, 2, 3, 4]"
  using distance_parabola_exact_line[of 26] by simp

end
